theory Spec2Isabelle
  imports Main "HOL-Library.AList" "HOL-Library.Extended_Nat"
begin

section \<open>The crossword solver of generate.py\<close>

text \<open>
  A shallow embedding of the class \<open>CrosswordCreator\<close> of \<^verbatim>\<open>generate.py\<close>.

  \<^item> A Python \<open>set\<close> is a list without repetitions; the order of the list is the order in
    which the interpreter iterates over the set. Removing elements from a set keeps the
    order of the remaining ones, and a set derived from another one (\<open>difference\<close>) is
    iterated in the order of the set it was derived from.
  \<^item> A Python \<open>dict\<close> is an association list in insertion order: \<open>d[k] = v\<close> is
    \<^const>\<open>AList.update\<close> (an existing key keeps its place, a new one goes last),
    \<open>d.pop(k)\<close> is \<^const>\<open>AList.delete\<close>, \<open>d[k]\<close> is \<^const>\<open>map_of\<close> and raises
    \<open>KeyError\<close> on a missing key.
  \<^item> Every exception is a value: a function that can raise returns \<open>py_error + 'a\<close>.
  \<^item> The mutable attribute \<open>self.domains\<close> and the mutable \<open>assignment\<close> argument are
    passed in and returned.
\<close>

subsection \<open>Data of the puzzle model\<close>

datatype direction = ACROSS | DOWN

record variable =
  var_i :: int
  var_j :: int
  var_direction :: direction
  var_length :: int

text \<open>
  The class \<open>Crossword\<close> lives in the module \<open>crossword\<close>, which \<^verbatim>\<open>generate.py\<close> imports.
  The solver reads three attributes of it: the set of variables, the set of words and
  the dictionary \<open>overlaps\<close>, which maps a pair of variables to \<open>None\<close> or to a pair of
  indices.
\<close>

record crossword =
  variables :: "variable list"
  words :: "string list"
  overlaps :: "((variable \<times> variable) \<times> (int \<times> int) option) list"

type_synonym domains = "(variable \<times> string list) list"
type_synonym assignment = "(variable \<times> string) list"

datatype py_error = KeyError | IndexError | TypeError

text \<open>
  Modelled from the spec: the method \<open>Crossword.neighbors\<close> is not part of
  \<^verbatim>\<open>generate.py\<close>. The spec describes it as
  ``\<open>neighbors(v)\<close>: set of Variable --- variables with a defined overlap with \<open>v\<close>''.
\<close>

definition has_overlap :: "crossword \<Rightarrow> variable \<Rightarrow> variable \<Rightarrow> bool" where
  "has_overlap cw v u =
     (case map_of (overlaps cw) (v, u) of Some (Some r) \<Rightarrow> True | _ \<Rightarrow> False)"

definition neighbors :: "crossword \<Rightarrow> variable \<Rightarrow> variable list" where
  "neighbors cw v = filter (has_overlap cw v) (variables cw)"

text \<open>
  Modelled from the spec: what the class \<open>Crossword\<close>, which is not part of
  \<^verbatim>\<open>generate.py\<close>, guarantees about its data (spec, sections 3 and 9). The variables
  form a set; \<open>overlaps\<close> has exactly one entry for every ordered pair of distinct
  variables; an overlap of \<open>(x, y)\<close> at \<open>(i, j)\<close> is the overlap of \<open>(y, x)\<close> at \<open>(j, i)\<close>;
  the indices lie inside the two slots.
\<close>

definition wf_entry :: "crossword \<Rightarrow> (variable \<times> variable) \<times> (int \<times> int) option \<Rightarrow> bool" where
  "wf_entry cw e =
     (case e of ((x, y), r) \<Rightarrow>
        x \<in> set (variables cw) \<and> y \<in> set (variables cw) \<and> x \<noteq> y \<and>
        (case r of
           None \<Rightarrow> True
         | Some (i, j) \<Rightarrow>
             map_of (overlaps cw) (y, x) = Some (Some (j, i)) \<and>
             0 \<le> i \<and> i < var_length x \<and> 0 \<le> j \<and> j < var_length y))"

definition wf_crossword :: "crossword \<Rightarrow> bool" where
  "wf_crossword cw \<longleftrightarrow>
     distinct (variables cw) \<and>
     distinct (map fst (overlaps cw)) \<and>
     list_all (wf_entry cw) (overlaps cw) \<and>
     list_all (\<lambda>x. list_all (\<lambda>y. x = y \<or> map_of (overlaps cw) (x, y) \<noteq> None)
                  (variables cw)) (variables cw)"

subsection \<open>Indexing a string\<close>

text \<open>Python's \<open>w[k]\<close>: a negative index counts from the end, an index out of range raises.\<close>

definition str_index :: "string \<Rightarrow> int \<Rightarrow> py_error + char" where
  "str_index w k =
     (let n = int (length w); k' = (if k < 0 then n + k else k)
      in if 0 \<le> k' \<and> k' < n then Inr (w ! nat k') else Inl IndexError)"

text \<open>The test \<open>w1[i] == w2[j]\<close>; the left operand is evaluated first.\<close>

definition agree :: "int \<Rightarrow> int \<Rightarrow> string \<Rightarrow> string \<Rightarrow> py_error + bool" where
  "agree i j w1 w2 =
     (case str_index w1 i of
        Inl e \<Rightarrow> Inl e
      | Inr c1 \<Rightarrow> (case str_index w2 j of Inl e \<Rightarrow> Inl e | Inr c2 \<Rightarrow> Inr (c1 = c2)))"

subsection \<open>The domain store\<close>

text \<open>\<open>__init__\<close>: every variable starts with its own copy of the word set.\<close>

definition init_domains :: "crossword \<Rightarrow> domains" where
  "init_domains cw = map (\<lambda>var. (var, words cw)) (variables cw)"

text \<open>\<open>s.difference_update(xs)\<close> on a set \<open>s\<close>.\<close>

definition difference_update :: "string list \<Rightarrow> string list \<Rightarrow> string list" where
  "difference_update s xs = filter (\<lambda>w. w \<notin> set xs) s"

subsection \<open>Node consistency\<close>

text \<open>The inner loop of \<open>enforce_node_consistency\<close>: it appends to \<open>to_be_removed\<close>.\<close>

fun to_be_removed :: "variable \<Rightarrow> string list \<Rightarrow> string list \<Rightarrow> string list" where
  "to_be_removed var [] acc = acc"
| "to_be_removed var (w # ws) acc =
     (if int (length w) \<noteq> var_length var then to_be_removed var ws (acc @ [w])
      else to_be_removed var ws acc)"

text \<open>
  The outer loop runs over the items of \<open>self.domains\<close> and updates the set stored under
  the key in place.
\<close>

fun node_loop :: "(variable \<times> string list) list \<Rightarrow> domains \<Rightarrow> domains" where
  "node_loop [] doms = doms"
| "node_loop ((var, ws) # items) doms =
     node_loop items
       (AList.update var (difference_update ws (to_be_removed var ws [])) doms)"

definition enforce_node_consistency :: "domains \<Rightarrow> domains" where
  "enforce_node_consistency doms = node_loop doms doms"

subsection \<open>Arc consistency\<close>

text \<open>The loop over \<open>word_v2\<close> in \<open>revise\<close>, with its \<open>break\<close>; the result is \<open>found\<close>.\<close>

fun find_support :: "int \<Rightarrow> int \<Rightarrow> string \<Rightarrow> string list \<Rightarrow> py_error + bool" where
  "find_support i j w1 [] = Inr False"
| "find_support i j w1 (w2 # ws) =
     (case agree i j w1 w2 of
        Inl e \<Rightarrow> Inl e
      | Inr eq \<Rightarrow> if eq then Inr True else find_support i j w1 ws)"

text \<open>The loop over \<open>word_v1\<close> in \<open>revise\<close>; the result is \<open>to_removed\<close>.\<close>

fun unsupported :: "int \<Rightarrow> int \<Rightarrow> string list \<Rightarrow> string list \<Rightarrow> string list
    \<Rightarrow> py_error + string list" where
  "unsupported i j [] word_v2 acc = Inr acc"
| "unsupported i j (w1 # ws) word_v2 acc =
     (case find_support i j w1 word_v2 of
        Inl e \<Rightarrow> Inl e
      | Inr found \<Rightarrow>
          if \<not> found then unsupported i j ws word_v2 (acc @ [w1])
          else unsupported i j ws word_v2 acc)"

text \<open>\<open>revise(x, y)\<close> returns the flag \<open>revision\<close> and the domain store.\<close>

definition revise :: "crossword \<Rightarrow> domains \<Rightarrow> variable \<Rightarrow> variable
    \<Rightarrow> py_error + (bool \<times> domains)" where
  "revise cw doms x y =
     (case map_of (overlaps cw) (x, y) of
        None \<Rightarrow> Inl KeyError
      | Some ov \<Rightarrow>
          (case map_of doms x of
             None \<Rightarrow> Inl KeyError
           | Some word_v1 \<Rightarrow>
               (case map_of doms y of
                  None \<Rightarrow> Inl KeyError
                | Some word_v2 \<Rightarrow>
                    (case ov of
                       None \<Rightarrow> Inr (False, doms)
                     | Some (i, j) \<Rightarrow>
                         (case unsupported i j word_v1 word_v2 [] of
                            Inl e \<Rightarrow> Inl e
                          | Inr to_removed \<Rightarrow>
                              Inr (length to_removed \<noteq> 0,
                                   AList.update x (difference_update word_v1 to_removed)
                                     doms))))))"

text \<open>The list of arcs that \<open>ac3\<close> starts from when \<open>arcs\<close> is \<open>None\<close>.\<close>

definition initial_arcs :: "crossword \<Rightarrow> (variable \<times> variable) list" where
  "initial_arcs cw = map fst (filter (\<lambda>(var, a). a \<noteq> None) (overlaps cw))"

text \<open>The size of the store: the termination measure of the propagation loop.\<close>

definition store_size :: "domains \<Rightarrow> nat" where
  "store_size doms = sum_list (map (\<lambda>(var, ws). length ws) doms)"

lemma unsupported_char:
  "unsupported i j ws w2s acc = Inr r \<longleftrightarrow>
     (\<forall>w \<in> set ws. \<exists>b. find_support i j w w2s = Inr b) \<and>
     r = acc @ filter (\<lambda>w. find_support i j w w2s = Inr False) ws"
  by (induction ws arbitrary: acc) (auto split: sum.splits)

lemma store_size_update:
  "map_of doms x = Some old \<Longrightarrow>
   store_size (AList.update x new doms) + length old = store_size doms + length new"
  by (induction doms) (auto simp: store_size_def)

lemma length_difference_update:
  "length (difference_update s xs) \<le> length s"
  by (simp add: difference_update_def)

lemma length_difference_update_less:
  "w \<in> set s \<Longrightarrow> w \<in> set xs \<Longrightarrow> length (difference_update s xs) < length s"
  unfolding difference_update_def
  by (rule length_filter_less[of w]) auto

lemma revise_cases:
  assumes "revise cw doms x y = Inr (revision, doms')"
  obtains (no_overlap) word_v1 word_v2 where
      "map_of (overlaps cw) (x, y) = Some None" "map_of doms x = Some word_v1"
      "map_of doms y = Some word_v2" "\<not> revision" "doms' = doms"
  | (overlap) i j word_v1 word_v2 to_removed where
      "map_of (overlaps cw) (x, y) = Some (Some (i, j))" "map_of doms x = Some word_v1"
      "map_of doms y = Some word_v2"
      "unsupported i j word_v1 word_v2 [] = Inr to_removed"
      "revision \<longleftrightarrow> to_removed \<noteq> []"
      "doms' = AList.update x (difference_update word_v1 to_removed) doms"
  using assms unfolding revise_def
  by (auto split: option.splits sum.splits)

lemma revise_size:
  assumes "revise cw doms x y = Inr (revision, doms')"
  shows "store_size doms' \<le> store_size doms"
    and "revision \<Longrightarrow> store_size doms' < store_size doms"
proof -
  show "store_size doms' \<le> store_size doms"
    using assms
  proof (cases rule: revise_cases)
    case no_overlap
    then show ?thesis by simp
  next
    case (overlap i j word_v1 word_v2 to_removed)
    with store_size_update[of doms x word_v1 "difference_update word_v1 to_removed"]
      length_difference_update[of word_v1 to_removed]
    show ?thesis by simp
  qed
  show "store_size doms' < store_size doms" if "revision"
    using assms
  proof (cases rule: revise_cases)
    case no_overlap
    with that show ?thesis by simp
  next
    case (overlap i j word_v1 word_v2 to_removed)
    with that obtain w where w: "w \<in> set to_removed"
      by (cases to_removed) auto
    with overlap(4) have "w \<in> set word_v1"
      by (auto simp: unsupported_char)
    with w have "length (difference_update word_v1 to_removed) < length word_v1"
      by (simp add: length_difference_update_less)
    with store_size_update[of doms x word_v1 "difference_update word_v1 to_removed"] overlap
    show ?thesis by simp
  qed
qed

function ac3_loop :: "crossword \<Rightarrow> domains \<Rightarrow> (variable \<times> variable) list
    \<Rightarrow> py_error + (bool option \<times> domains)" where
  "ac3_loop cw doms [] = Inr (None, doms)"
| "ac3_loop cw doms (arc # arcs) =
     (case revise cw doms (fst arc) (snd arc) of
        Inl e \<Rightarrow> Inl e
      | Inr (revision, doms') \<Rightarrow>
          if revision then
            (case map_of doms' (fst arc) of
               None \<Rightarrow> Inl KeyError
             | Some ws \<Rightarrow>
                 if length ws = 0 then Inr (Some False, doms')
                 else ac3_loop cw doms'
                        (arcs @ map (\<lambda>var. (var, fst arc))
                                  (filter (\<lambda>var. var \<noteq> snd arc) (neighbors cw (fst arc)))))
          else ac3_loop cw doms' arcs)"
  by pat_completeness auto
termination
proof (relation "measures [\<lambda>(cw, doms, arcs). store_size doms, \<lambda>(cw, doms, arcs). length arcs]")
  show "wf (measures [\<lambda>(cw, doms, arcs). store_size doms, \<lambda>(cw, doms, arcs). length arcs])"
    by simp
next
  fix cw doms arc arcs b revision doms' ws
  assume "revise cw doms (fst arc) (snd arc) = Inr b" "(revision, doms') = b" "revision"
  then have "store_size doms' < store_size doms"
    using revise_size(2)[of cw doms "fst arc" "snd arc" revision doms'] by simp
  then show "((cw, doms', arcs @ map (\<lambda>var. (var, fst arc))
        (filter (\<lambda>var. var \<noteq> snd arc) (neighbors cw (fst arc)))), cw, doms, arc # arcs)
      \<in> measures [\<lambda>(cw, doms, arcs). store_size doms, \<lambda>(cw, doms, arcs). length arcs]"
    by simp
next
  fix cw doms arc arcs b revision doms'
  assume "revise cw doms (fst arc) (snd arc) = Inr b" "(revision, doms') = b"
  then have "store_size doms' \<le> store_size doms"
    using revise_size(1)[of cw doms "fst arc" "snd arc" revision doms'] by simp
  then show "((cw, doms', arcs), cw, doms, arc # arcs)
      \<in> measures [\<lambda>(cw, doms, arcs). store_size doms, \<lambda>(cw, doms, arcs). length arcs]"
    by auto
qed

text \<open>
  \<open>ac3(arcs)\<close>: \<open>Some False\<close> is the value \<open>False\<close>; \<open>None\<close> is Python's \<open>None\<close>, which the
  method returns when the loop ends, since it has no \<open>return\<close> after the loop.
\<close>

definition ac3 :: "crossword \<Rightarrow> domains \<Rightarrow> (variable \<times> variable) list option
    \<Rightarrow> py_error + (bool option \<times> domains)" where
  "ac3 cw doms arcs =
     ac3_loop cw doms (case arcs of None \<Rightarrow> initial_arcs cw | Some given \<Rightarrow> given)"

subsection \<open>Complete and consistent assignments\<close>

definition assignment_complete :: "crossword \<Rightarrow> assignment \<Rightarrow> bool" where
  "assignment_complete cw asg =
     (if filter (\<lambda>var. var \<notin> set (map fst asg)) (variables cw) \<noteq> [] then False
      else True)"

text \<open>
  \<open>numpy.unique(values, return_counts=True)\<close>: the number of occurrences of every distinct
  value. (numpy lists the distinct values sorted; the test \<open>all(counts == 1)\<close> does not
  depend on their order.)
\<close>

definition unique_counts :: "string list \<Rightarrow> nat list" where
  "unique_counts vals = map (count_list vals) (remdups vals)"

text \<open>
  The loop over the neighbours of \<open>var\<close> in \<open>consistent\<close>: \<open>Inr False\<close> when the method
  returns \<open>False\<close> from inside the loop, \<open>Inr True\<close> when the loop ends.
\<close>

fun check_neighbors :: "crossword \<Rightarrow> assignment \<Rightarrow> variable \<Rightarrow> string \<Rightarrow> variable list
    \<Rightarrow> py_error + bool" where
  "check_neighbors cw asg var val [] = Inr True"
| "check_neighbors cw asg var val (n # ns) =
     (case map_of (overlaps cw) (var, n) of
        None \<Rightarrow> Inl KeyError
      | Some r \<Rightarrow>
          (case map_of asg n of
             None \<Rightarrow> check_neighbors cw asg var val ns
           | Some w2 \<Rightarrow>
               (case r of
                  None \<Rightarrow> Inl TypeError
                | Some (i, j) \<Rightarrow>
                    (case agree i j val w2 of
                       Inl e \<Rightarrow> Inl e
                     | Inr eq \<Rightarrow>
                         if \<not> eq then Inr False
                         else check_neighbors cw asg var val ns))))"

text \<open>The loop over the items of the assignment in \<open>consistent\<close>.\<close>

fun check_items :: "crossword \<Rightarrow> assignment \<Rightarrow> (variable \<times> string) list
    \<Rightarrow> py_error + bool" where
  "check_items cw asg [] = Inr True"
| "check_items cw asg ((var, val) # items) =
     (if int (length val) \<noteq> var_length var then Inr False
      else (case check_neighbors cw asg var val (neighbors cw var) of
              Inl e \<Rightarrow> Inl e
            | Inr ok \<Rightarrow> if \<not> ok then Inr False else check_items cw asg items))"

definition consistent :: "crossword \<Rightarrow> assignment \<Rightarrow> py_error + bool" where
  "consistent cw asg =
     (if \<not> list_all (\<lambda>c. c = 1) (unique_counts (map snd asg)) then Inr False
      else check_items cw asg asg)"

subsection \<open>Value ordering\<close>

text \<open>
  The three nested loops of \<open>order_domain_values\<close>. The dictionary \<open>result\<close> is threaded
  through them; the counter \<open>nb_eliminated\<close> starts at 0 for every pair of a neighbour
  and a word \<open>w1\<close>.
\<close>

fun count_loop :: "(int \<times> int) option \<Rightarrow> string \<Rightarrow> string list \<Rightarrow> nat
    \<Rightarrow> (string \<times> nat) list \<Rightarrow> py_error + (string \<times> nat) list" where
  "count_loop overlap w1 [] nb_eliminated result = Inr result"
| "count_loop overlap w1 (w2 # ws) nb_eliminated result =
     (case overlap of
        None \<Rightarrow> Inl TypeError
      | Some (i, j) \<Rightarrow>
          (case agree i j w1 w2 of
             Inl e \<Rightarrow> Inl e
           | Inr eq \<Rightarrow>
               if \<not> eq then
                 count_loop overlap w1 ws (nb_eliminated + 1)
                   (AList.update w1 (nb_eliminated + 1) result)
               else count_loop overlap w1 ws nb_eliminated result))"

fun word_loop :: "(int \<times> int) option \<Rightarrow> string list \<Rightarrow> string list
    \<Rightarrow> (string \<times> nat) list \<Rightarrow> py_error + (string \<times> nat) list" where
  "word_loop overlap [] words_neighbor result = Inr result"
| "word_loop overlap (w1 # ws) words_neighbor result =
     (case count_loop overlap w1 words_neighbor 0 result of
        Inl e \<Rightarrow> Inl e
      | Inr result' \<Rightarrow> word_loop overlap ws words_neighbor result')"

fun neighbor_loop :: "crossword \<Rightarrow> domains \<Rightarrow> variable \<Rightarrow> assignment \<Rightarrow> string list
    \<Rightarrow> variable list \<Rightarrow> (string \<times> nat) list \<Rightarrow> py_error + (string \<times> nat) list" where
  "neighbor_loop cw doms var asg word_var [] result = Inr result"
| "neighbor_loop cw doms var asg word_var (n # ns) result =
     (if n \<notin> set (map fst asg) then
        (case map_of (overlaps cw) (var, n) of
           None \<Rightarrow> Inl KeyError
         | Some overlap \<Rightarrow>
             (case map_of doms n of
                None \<Rightarrow> Inl KeyError
              | Some words_neighbor \<Rightarrow>
                  (case word_loop overlap word_var words_neighbor result of
                     Inl e \<Rightarrow> Inl e
                   | Inr result' \<Rightarrow> neighbor_loop cw doms var asg word_var ns result')))
      else neighbor_loop cw doms var asg word_var ns result)"

text \<open>
  \<open>sorted(word_var, key=result.__getitem__)\<close>: the key of every word is looked up first,
  in the order of the words, and a missing key raises \<open>KeyError\<close>; the sort is stable.
\<close>

fun getitem_keys :: "(string \<times> nat) list \<Rightarrow> string list \<Rightarrow> py_error + (nat \<times> string) list" where
  "getitem_keys result [] = Inr []"
| "getitem_keys result (w # ws) =
     (case map_of result w of
        None \<Rightarrow> Inl KeyError
      | Some k \<Rightarrow>
          (case getitem_keys result ws of
             Inl e \<Rightarrow> Inl e
           | Inr keyed \<Rightarrow> Inr ((k, w) # keyed)))"

definition sorted_by_result :: "string list \<Rightarrow> (string \<times> nat) list \<Rightarrow> py_error + string list" where
  "sorted_by_result ws result =
     (case getitem_keys result ws of
        Inl e \<Rightarrow> Inl e
      | Inr keyed \<Rightarrow> Inr (map snd (sort_key fst keyed)))"

definition order_domain_values :: "crossword \<Rightarrow> domains \<Rightarrow> variable \<Rightarrow> assignment
    \<Rightarrow> py_error + string list" where
  "order_domain_values cw doms var asg =
     (case map_of doms var of
        None \<Rightarrow> Inl KeyError
      | Some word_var \<Rightarrow>
          (case neighbor_loop cw doms var asg word_var (neighbors cw var) [] of
             Inl e \<Rightarrow> Inl e
           | Inr result \<Rightarrow>
               if length result = 0 then Inr word_var
               else sorted_by_result word_var result))"

subsection \<open>Variable selection\<close>

text \<open>The dictionary \<open>uv_sorted\<close>: every unassigned variable with the size of its domain.\<close>

fun domain_sizes :: "domains \<Rightarrow> variable list \<Rightarrow> py_error + (variable \<times> nat) list" where
  "domain_sizes doms [] = Inr []"
| "domain_sizes doms (var # uv) =
     (case map_of doms var of
        None \<Rightarrow> Inl KeyError
      | Some ws \<Rightarrow>
          (case domain_sizes doms uv of
             Inl e \<Rightarrow> Inl e
           | Inr sizes \<Rightarrow> Inr ((var, length ws) # sizes)))"

text \<open>The loop that finds the smallest size; \<open>length\<close> starts at \<open>math.inf\<close>.\<close>

fun fewest_values :: "(variable \<times> nat) list \<Rightarrow> enat \<Rightarrow> enat" where
  "fewest_values [] len = len"
| "fewest_values ((v, l) # items) len =
     (if enat l < len then fewest_values items (enat l) else fewest_values items len)"

text \<open>
  The loop \<open>for i in range(1, len(v_candidate))\<close>: the candidates from position \<open>i\<close> on,
  the largest number of neighbours \<open>n\<close> seen so far, and the position \<open>index\<close> where it
  was seen.
\<close>

fun highest_degree :: "crossword \<Rightarrow> variable list \<Rightarrow> nat \<Rightarrow> nat \<Rightarrow> nat \<Rightarrow> nat" where
  "highest_degree cw [] i n index = index"
| "highest_degree cw (c # cs) i n index =
     (if length (neighbors cw c) > n
      then highest_degree cw cs (i + 1) (length (neighbors cw c)) i
      else highest_degree cw cs (i + 1) n index)"

definition select_unassigned_variable :: "crossword \<Rightarrow> domains \<Rightarrow> assignment
    \<Rightarrow> py_error + variable" where
  "select_unassigned_variable cw doms asg =
     (let uv = filter (\<lambda>var. var \<notin> set (map fst asg)) (variables cw) in
      case domain_sizes doms uv of
        Inl e \<Rightarrow> Inl e
      | Inr uv_sorted \<Rightarrow>
          (let len = fewest_values uv_sorted \<infinity>;
               v_candidate = map fst (filter (\<lambda>(var, l). enat l = len) uv_sorted)
           in if length v_candidate \<noteq> 1 then
                (case v_candidate of
                   [] \<Rightarrow> Inl IndexError
                 | c # cs \<Rightarrow>
                     Inr (v_candidate ! highest_degree cw cs 1 (length (neighbors cw c)) 0))
              else Inr (v_candidate ! 0)))"

subsection \<open>Backtracking search\<close>

text \<open>
  \<open>backtrack\<close> returns its result (\<open>None\<close>, or the assignment) together with the state in
  which it leaves the dictionary \<open>assignment\<close>, which it mutates. \<open>try_values\<close> is the
  loop over \<open>ordered_value_var\<close>.
\<close>

function backtrack :: "crossword \<Rightarrow> domains \<Rightarrow> assignment
    \<Rightarrow> py_error + (assignment option \<times> assignment)"
  and try_values :: "crossword \<Rightarrow> domains \<Rightarrow> variable \<Rightarrow> string list \<Rightarrow> assignment
    \<Rightarrow> py_error + (assignment option \<times> assignment)" where
  "backtrack cw doms asg =
     (if assignment_complete cw asg then Inr (Some asg, asg)
      else (case select_unassigned_variable cw doms asg of
              Inl e \<Rightarrow> Inl e
            | Inr var \<Rightarrow>
                (case order_domain_values cw doms var asg of
                   Inl e \<Rightarrow> Inl e
                 | Inr ordered_value_var \<Rightarrow> try_values cw doms var ordered_value_var asg)))"
| "try_values cw doms var [] asg = Inr (None, asg)"
| "try_values cw doms var (v # vs) asg =
     (case consistent cw (AList.update var v asg) of
        Inl e \<Rightarrow> Inl e
      | Inr ok \<Rightarrow>
          if ok then
            (case backtrack cw doms (AList.update var v asg) of
               Inl e \<Rightarrow> Inl e
             | Inr (result, asg') \<Rightarrow>
                 (case result of
                    Some r \<Rightarrow> Inr (Some r, asg')
                  | None \<Rightarrow>
                      if var \<in> set (map fst asg')
                      then try_values cw doms var vs (AList.delete var asg')
                      else Inl KeyError))
          else try_values cw doms var vs (AList.update var v asg))"
  by pat_completeness auto

lemma highest_degree_bound:
  "index < i \<Longrightarrow> highest_degree cw cs i n index < i + length cs"
proof (induction cs arbitrary: i n index)
  case Nil
  then show ?case by simp
next
  case (Cons c cs)
  have a: "highest_degree cw cs (i + 1) (length (neighbors cw c)) i < (i + 1) + length cs"
    by (rule Cons.IH) simp
  have b: "highest_degree cw cs (i + 1) n index < (i + 1) + length cs"
    by (rule Cons.IH) (use Cons.prems in simp)
  from a b show ?case by (simp del: One_nat_def add.commute)
qed

lemma keys_delete: "fst ` set (AList.delete k al) = fst ` set al - {k}"
  using delete_keys[of k al] by (metis list.set_map set_removeAll)

lemma domain_sizes_fst: "domain_sizes doms uv = Inr sizes \<Longrightarrow> map fst sizes = uv"
  by (induction uv arbitrary: sizes) (auto split: option.splits sum.splits)

lemma select_unassigned_variable_unassigned:
  assumes "select_unassigned_variable cw doms asg = Inr var"
  shows "var \<in> set (variables cw)" and "var \<notin> fst ` set asg"
proof -
  let ?uv = "filter (\<lambda>var. var \<notin> set (map fst asg)) (variables cw)"
  from assms obtain uv_sorted where sizes: "domain_sizes doms ?uv = Inr uv_sorted"
    by (auto simp: select_unassigned_variable_def Let_def split: sum.splits)
  define cands where
    "cands = map fst (filter (\<lambda>(var, l). enat l = fewest_values uv_sorted \<infinity>) uv_sorted)"
  have sub: "set cands \<subseteq> set ?uv"
  proof -
    have "set cands \<subseteq> set (map fst uv_sorted)" unfolding cands_def by auto
    with domain_sizes_fst[OF sizes] show ?thesis by simp
  qed
  have sel_eq: "select_unassigned_variable cw doms asg =
      (if length cands \<noteq> 1 then
         (case cands of [] \<Rightarrow> Inl IndexError
          | c # cs \<Rightarrow> Inr (cands ! highest_degree cw cs 1 (length (neighbors cw c)) 0))
       else Inr (cands ! 0))"
    unfolding select_unassigned_variable_def Let_def cands_def using sizes by simp
  have "\<exists>k < length cands. var = cands ! k"
  proof (cases cands)
    case Nil
    with assms sel_eq show ?thesis by simp
  next
    case (Cons c cs)
    have "highest_degree cw cs 1 (length (neighbors cw c)) 0 < length cands"
      using highest_degree_bound[of 0 1 cw cs "length (neighbors cw c)"] Cons by simp
    moreover have "0 < length cands" using Cons by simp
    moreover have "var = cands ! highest_degree cw cs 1 (length (neighbors cw c)) 0 \<or>
        var = cands ! 0"
      using assms unfolding sel_eq by (simp add: Cons split: if_splits)
    ultimately show ?thesis by blast
  qed
  then have "var \<in> set cands" by auto
  with sub show "var \<in> set (variables cw)" and "var \<notin> fst ` set asg" by auto
qed

lemma keys_step:
  "A1 = insert v A \<Longrightarrow> A1 \<subseteq> B \<Longrightarrow> B - {v} \<subseteq> C \<Longrightarrow> A - {v} \<subseteq> C"
  by blast

lemma backtrack_try_values_keys_partial:
  "backtrack_try_values_dom (Inl (cw, doms, asg)) \<Longrightarrow>
     (\<forall>res a. backtrack cw doms asg = Inr (res, a) \<longrightarrow> fst ` set asg \<subseteq> fst ` set a)"
  "backtrack_try_values_dom (Inr (cw, doms, var, vs, asg)) \<Longrightarrow>
     (\<forall>res a. try_values cw doms var vs asg = Inr (res, a) \<longrightarrow>
        fst ` set asg - {var} \<subseteq> fst ` set a)"
proof (induction cw doms asg and cw doms var vs asg rule: backtrack_try_values.pinduct)
  case (1 cw doms asg)
  note eq = backtrack.psimps[OF "1.hyps"]
  show ?case
  proof (intro allI impI)
    fix res a
    assume r: "backtrack cw doms asg = Inr (res, a)"
    show "fst ` set asg \<subseteq> fst ` set a"
    proof (cases "assignment_complete cw asg")
      case True
      with r show ?thesis unfolding eq by simp
    next
      case False
      show ?thesis
      proof (cases "select_unassigned_variable cw doms asg")
        case (Inl e)
        with r False show ?thesis unfolding eq by simp
      next
        case sel: (Inr var)
        show ?thesis
        proof (cases "order_domain_values cw doms var asg")
          case (Inl e)
          with r False sel show ?thesis unfolding eq by simp
        next
          case ord: (Inr vals)
          from r False sel ord have tr: "try_values cw doms var vals asg = Inr (res, a)"
            unfolding eq by simp
          from "1.IH"[OF False sel ord] tr have "fst ` set asg - {var} \<subseteq> fst ` set a"
            by blast
          with select_unassigned_variable_unassigned(2)[OF sel] show ?thesis by blast
        qed
      qed
    qed
  qed
next
  case (2 cw doms var asg)
  show ?case unfolding try_values.psimps(1)[OF 2] by auto
next
  case (3 cw doms var v vs asg)
  note eq = try_values.psimps(2)[OF "3.hyps"]
  show ?case
  proof (intro allI impI)
    fix res a
    assume r: "try_values cw doms var (v # vs) asg = Inr (res, a)"
    let ?asg1 = "AList.update var v asg"
    have k1: "fst ` set ?asg1 = insert var (fst ` set asg)"
      by (simp add: dom_update)
    show "fst ` set asg - {var} \<subseteq> fst ` set a"
    proof (cases "consistent cw ?asg1")
      case (Inl e)
      with r show ?thesis unfolding eq by simp
    next
      case c: (Inr ok)
      show ?thesis
      proof (cases ok)
        case False
        with r c have "try_values cw doms var vs ?asg1 = Inr (res, a)"
          unfolding eq by simp
        with "3.IH"(3)[OF c False] have "fst ` set ?asg1 - {var} \<subseteq> fst ` set a" by blast
        with k1 show ?thesis by blast
      next
        case True
        show ?thesis
        proof (cases "backtrack cw doms ?asg1")
          case (Inl e)
          with r c True show ?thesis unfolding eq by simp
        next
          case (Inr p)
          obtain res' asg' where p: "p = (res', asg')" by (cases p)
          note b = Inr[unfolded p]
          from "3.IH"(1)[OF c True] b have s1: "fst ` set ?asg1 \<subseteq> fst ` set asg'" by blast
          show ?thesis
          proof (cases res')
            case (Some r')
            with r c True b have "a = asg'"
              unfolding eq by simp
            with s1 k1 show ?thesis by (intro keys_step[OF k1, of "fst ` set asg'"]) auto
          next
            case None
            show ?thesis
            proof (cases "var \<in> set (map fst asg')")
              case False
              with r c True b None show ?thesis unfolding eq by simp
            next
              case inn: True
              with r c True b None
              have tr: "try_values cw doms var vs (AList.delete var asg') = Inr (res, a)"
                unfolding eq by simp
              from "3.IH"(2)[OF c True b refl None inn] tr
              have "fst ` set (AList.delete var asg') - {var} \<subseteq> fst ` set a" by blast
              then have "fst ` set asg' - {var} \<subseteq> fst ` set a"
                unfolding keys_delete by simp
              with k1 s1 show ?thesis by (rule keys_step)
            qed
          qed
        qed
      qed
    qed
  qed
qed

definition unassigned :: "crossword \<Rightarrow> assignment \<Rightarrow> variable set" where
  "unassigned cw asg = set (variables cw) - fst ` set asg"

lemma card_unassigned_less:
  "var \<in> set (variables cw) \<Longrightarrow> var \<notin> fst ` set asg \<Longrightarrow>
   card (unassigned cw asg - {var}) < card (unassigned cw asg)"
  by (intro card_Diff1_less) (simp_all add: unassigned_def)

lemma unassigned_update:
  "unassigned cw (AList.update var v asg) = unassigned cw asg - {var}"
  by (auto simp: unassigned_def dom_update)

lemma card_unassigned_delete:
  assumes "fst ` set (AList.update var v asg) \<subseteq> fst ` set asg'"
  shows "card (unassigned cw (AList.delete var asg') - {var}) \<le> card (unassigned cw asg - {var})"
proof -
  from assms have "unassigned cw (AList.delete var asg') - {var} \<subseteq> unassigned cw asg - {var}"
    by (auto simp: unassigned_def dom_update keys_delete)
  moreover have "finite (unassigned cw asg - {var})" by (simp add: unassigned_def)
  ultimately show ?thesis by (rule card_mono[rotated])
qed

termination backtrack
proof (relation "measures
    [\<lambda>x. case x of Inl (cw, doms, asg) \<Rightarrow> card (unassigned cw asg)
               | Inr (cw, doms, var, vs, asg) \<Rightarrow> card (unassigned cw asg - {var}),
     \<lambda>x. case x of Inl (cw, doms, asg) \<Rightarrow> 0
               | Inr (cw, doms, var, vs, asg) \<Rightarrow> Suc (length vs)]", goal_cases)
  case 1
  show ?case by (rule wf_measures)
next
  case (2 cw doms asg var vals)
  from select_unassigned_variable_unassigned[OF 2(2)]
  have "card (unassigned cw asg - {var}) < card (unassigned cw asg)"
    by (rule card_unassigned_less)
  then show ?case by simp
next
  case (3 cw doms var v vs asg ok)
  show ?case by (simp add: unassigned_update)
next
  case (4 cw doms var v vs asg ok ba res asg')
  from 4(3,4) have "backtrack cw doms (AList.update var v asg) = Inr (res, asg')" by simp
  with backtrack_try_values_keys_partial(1)[OF 4(7)]
  have "fst ` set (AList.update var v asg) \<subseteq> fst ` set asg'" by blast
  then have "card (unassigned cw (AList.delete var asg') - {var})
      \<le> card (unassigned cw asg - {var})"
    by (rule card_unassigned_delete)
  then show ?case by auto
next
  case (5 cw doms var v vs asg ok)
  show ?case by (simp add: unassigned_update)
qed

text \<open>
  \<open>solve\<close> is a method of an object whose attribute \<open>domains\<close> was set by \<open>__init__\<close>; the
  value that \<open>ac3\<close> returns is dropped.
\<close>

definition solve_from :: "crossword \<Rightarrow> domains \<Rightarrow> py_error + assignment option" where
  "solve_from cw doms =
     (case ac3 cw (enforce_node_consistency doms) None of
        Inl e \<Rightarrow> Inl e
      | Inr (ret, doms') \<Rightarrow>
          (case backtrack cw doms' [] of
             Inl e \<Rightarrow> Inl e
           | Inr (result, asg) \<Rightarrow> Inr result))"

definition solve :: "crossword \<Rightarrow> py_error + assignment option" where
  "solve cw = solve_from cw (init_domains cw)"

section \<open>Puzzles used as examples\<close>

definition mkvar :: "int \<Rightarrow> int \<Rightarrow> direction \<Rightarrow> int \<Rightarrow> variable" where
  "mkvar i j d l = \<lparr>var_i = i, var_j = j, var_direction = d, var_length = l\<rparr>"

text \<open>The first scenario of the spec: one slot of length 3 and the words cat, dog, ax.\<close>

definition slot3 :: variable where
  "slot3 = mkvar 0 0 ACROSS 3"

definition one_slot :: crossword where
  "one_slot = \<lparr>variables = [slot3], words = [''cat'', ''dog'', ''ax''], overlaps = []\<rparr>"

text \<open>
  The second scenario of the spec: two slots of length 3 that cross where the letter 2 of
  the first is the letter 0 of the second, and the words cat, tar, dog.
\<close>

definition slot_x :: variable where
  "slot_x = mkvar 0 0 ACROSS 3"

definition slot_y :: variable where
  "slot_y = mkvar 0 2 DOWN 3"

definition two_slots :: crossword where
  "two_slots = \<lparr>variables = [slot_x, slot_y], words = [''cat'', ''tar'', ''dog''],
     overlaps = [((slot_x, slot_y), Some (2, 0)), ((slot_y, slot_x), Some (0, 2))]\<rparr>"

definition two_slots_pruned :: domains where
  "two_slots_pruned = [(slot_x, [''cat'']), (slot_y, [''tar''])]"

text \<open>
  Two slots that meet in a corner: the letter 0 of \<open>across_x\<close> is the letter 2 of \<open>down_y\<close>.
\<close>

definition across_x :: variable where
  "across_x = mkvar 2 0 ACROSS 3"

definition down_y :: variable where
  "down_y = mkvar 0 0 DOWN 3"

definition corner :: crossword where
  "corner = \<lparr>variables = [across_x, down_y], words = [''cat'', ''a''],
     overlaps = [((across_x, down_y), Some (0, 2)), ((down_y, across_x), Some (2, 0))]\<rparr>"

text \<open>Two slots that do not cross, and a single word.\<close>

definition sep_x :: variable where
  "sep_x = mkvar 0 0 ACROSS 3"

definition sep_y :: variable where
  "sep_y = mkvar 2 0 ACROSS 3"

definition two_separate :: crossword where
  "two_separate = \<lparr>variables = [sep_x, sep_y], words = [''cat''],
     overlaps = [((sep_x, sep_y), None), ((sep_y, sep_x), None)]\<rparr>"

text \<open>
  Three slots: \<open>gate_z\<close> runs across the top row, \<open>gate_x\<close> and \<open>gate_y\<close> run down from its
  first and its last cell.
\<close>

definition gate_x :: variable where
  "gate_x = mkvar 0 0 DOWN 2"

definition gate_y :: variable where
  "gate_y = mkvar 0 2 DOWN 2"

definition gate_z :: variable where
  "gate_z = mkvar 0 0 ACROSS 3"

definition gate_overlaps :: "((variable \<times> variable) \<times> (int \<times> int) option) list" where
  "gate_overlaps =
     [((gate_x, gate_y), None), ((gate_x, gate_z), Some (0, 0)),
      ((gate_y, gate_x), None), ((gate_y, gate_z), Some (0, 2)),
      ((gate_z, gate_x), Some (0, 0)), ((gate_z, gate_y), Some (2, 0))]"

text \<open>The three slots with a word list that has exactly one solution, \<open>gate_solution\<close>.\<close>

definition gate_missed :: crossword where
  "gate_missed = \<lparr>variables = [gate_x, gate_y, gate_z],
     words = [''cd'', ''ab'', ''axa'', ''cxa''], overlaps = gate_overlaps\<rparr>"

definition gate_solution :: assignment where
  "gate_solution = [(gate_x, ''cd''), (gate_y, ''ab''), (gate_z, ''cxa'')]"

text \<open>
  The three slots with a longer word list, and the store that node and arc consistency
  leave for it.
\<close>

definition gate_counts :: crossword where
  "gate_counts = \<lparr>variables = [gate_x, gate_y, gate_z],
     words = [''abc'', ''dbe'', ''ax'', ''dx'', ''dy'', ''dz'', ''cx'', ''cy'', ''ex''],
     overlaps = gate_overlaps\<rparr>"

definition gate_counts_pruned :: domains where
  "gate_counts_pruned =
     [(gate_x, [''ax'', ''dx'', ''dy'', ''dz'']), (gate_y, [''cx'', ''cy'', ''ex'']),
      (gate_z, [''abc'', ''dbe''])]"

section \<open>Predicates of the correctness proofs\<close>

text \<open>An arc is stable when revising it changes nothing and raises nothing.\<close>

definition stable_arc :: "crossword \<Rightarrow> domains \<Rightarrow> variable \<times> variable \<Rightarrow> bool" where
  "stable_arc cw doms arc \<longleftrightarrow> revise cw doms (fst arc) (snd arc) = Inr (False, doms)"

text \<open>Every arc with an overlap is waiting in the worklist or is stable.\<close>

definition arcs_invariant :: "crossword \<Rightarrow> domains \<Rightarrow> (variable \<times> variable) list \<Rightarrow> bool" where
  "arcs_invariant cw doms arcs \<longleftrightarrow>
     (\<forall>x y i j. map_of (overlaps cw) (x, y) = Some (Some (i, j)) \<longrightarrow>
        (x, y) \<in> set arcs \<or> stable_arc cw doms (x, y))"

text \<open>
  The number of eliminations as the spec and the docstring of \<open>order_domain_values\<close> have
  it: the words of the domains of the unassigned neighbours that disagree with \<open>w1\<close> at
  the overlap, summed over these neighbours.
\<close>

definition eliminated_in :: "crossword \<Rightarrow> domains \<Rightarrow> variable \<Rightarrow> string \<Rightarrow> variable \<Rightarrow> nat" where
  "eliminated_in cw doms var w1 n =
     (case map_of (overlaps cw) (var, n) of
        Some (Some (i, j)) \<Rightarrow>
          (case map_of doms n of
             Some ws \<Rightarrow> length (filter (\<lambda>w2. agree i j w1 w2 = Inr False) ws)
           | None \<Rightarrow> 0)
      | _ \<Rightarrow> 0)"

definition elimination_count :: "crossword \<Rightarrow> domains \<Rightarrow> variable \<Rightarrow> assignment \<Rightarrow> string
    \<Rightarrow> nat" where
  "elimination_count cw doms var asg w1 =
     sum_list (map (eliminated_in cw doms var w1)
       (filter (\<lambda>n. n \<notin> set (map fst asg)) (neighbors cw var)))"

text \<open>What the loop over the neighbours has checked when it ends.\<close>

definition neighbor_agrees :: "crossword \<Rightarrow> assignment \<Rightarrow> variable \<Rightarrow> string \<Rightarrow> variable \<Rightarrow> bool" where
  "neighbor_agrees cw asg var val n \<longleftrightarrow>
     (case map_of asg n of
        None \<Rightarrow> True
      | Some w2 \<Rightarrow>
          (case map_of (overlaps cw) (var, n) of
             Some (Some (i, j)) \<Rightarrow> agree i j val w2 = Inr True
           | _ \<Rightarrow> False))"

definition item_ok :: "crossword \<Rightarrow> assignment \<Rightarrow> variable \<times> string \<Rightarrow> bool" where
  "item_ok cw asg item \<longleftrightarrow>
     int (length (snd item)) = var_length (fst item) \<and>
     list_all (neighbor_agrees cw asg (fst item) (snd item)) (neighbors cw (fst item))"

text \<open>The keys of the assignment are variables of the puzzle, each bound once.\<close>

definition keys_ok :: "crossword \<Rightarrow> assignment \<Rightarrow> bool" where
  "keys_ok cw asg \<longleftrightarrow> distinct (map fst asg) \<and> set (map fst asg) \<subseteq> set (variables cw)"

definition solution :: "crossword \<Rightarrow> assignment \<Rightarrow> bool" where
  "solution cw asg \<longleftrightarrow> assignment_complete cw asg \<and> consistent cw asg = Inr True"

text \<open>
  The store has one domain for every variable of the puzzle, and every word of a domain
  has the length of its variable.
\<close>

definition store_ok :: "crossword \<Rightarrow> domains \<Rightarrow> bool" where
  "store_ok cw doms \<longleftrightarrow>
     map fst doms = variables cw \<and>
     list_all (\<lambda>(var, ws). list_all (\<lambda>w. int (length w) = var_length var) ws) doms"

text \<open>Every word of the assignment has the length of its variable.\<close>

definition lengths_ok :: "assignment \<Rightarrow> bool" where
  "lengths_ok asg \<longleftrightarrow> list_all (\<lambda>(var, val). int (length val) = var_length var) asg"

text \<open>The word \<open>w1\<close> of \<open>var\<close> disagrees with a word of the domain of the neighbour \<open>n\<close>.\<close>

definition disagrees :: "crossword \<Rightarrow> domains \<Rightarrow> variable \<Rightarrow> variable \<Rightarrow> string \<Rightarrow> bool" where
  "disagrees cw doms var n w1 \<longleftrightarrow>
     (\<exists>i j wn. map_of (overlaps cw) (var, n) = Some (Some (i, j)) \<and>
        map_of doms n = Some wn \<and> (\<exists>w2 \<in> set wn. agree i j w1 w2 = Inr False))"

text \<open>Every overlapping arc of the store is stable.\<close>

definition arc_consistent :: "crossword \<Rightarrow> domains \<Rightarrow> bool" where
  "arc_consistent cw doms \<longleftrightarrow> arcs_invariant cw doms []"

section \<open>Node consistency\<close>

lemma to_be_removed_eq:
  "to_be_removed var ws acc = acc @ filter (\<lambda>w. int (length w) \<noteq> var_length var) ws"
  by (induction ws arbitrary: acc) auto

lemma difference_update_to_be_removed:
  "difference_update ws (to_be_removed var ws []) =
     filter (\<lambda>w. int (length w) = var_length var) ws"
  unfolding difference_update_def to_be_removed_eq
  by (rule filter_cong) auto

lemma map_of_node_loop:
  "distinct (map fst items) \<Longrightarrow>
   map_of (node_loop items doms) v =
     (case map_of items v of
        None \<Rightarrow> map_of doms v
      | Some ws \<Rightarrow> Some (filter (\<lambda>w. int (length w) = var_length v) ws))"
proof (induction items arbitrary: doms)
  case Nil
  show ?case by simp
next
  case (Cons item items)
  obtain var ws where item: "item = (var, ws)" by (cases item)
  from Cons.prems have d: "distinct (map fst items)" and n: "var \<notin> fst ` set items"
    by (auto simp: item)
  from n have none: "map_of items var = None" by (simp add: map_of_eq_None_iff)
  show ?case
    unfolding item node_loop.simps Cons.IH[OF d] difference_update_to_be_removed
    by (cases "v = var") (simp_all add: none update_conv' split: option.splits)
qed

lemma keys_node_loop:
  "fst ` set items \<subseteq> fst ` set doms \<Longrightarrow> map fst (node_loop items doms) = map fst doms"
proof (induction items arbitrary: doms)
  case Nil
  show ?case by simp
next
  case (Cons item items)
  obtain var ws where item: "item = (var, ws)" by (cases item)
  let ?doms' = "AList.update var (difference_update ws (to_be_removed var ws [])) doms"
  from Cons.prems have k: "map fst ?doms' = map fst doms"
    by (auto simp: item update_keys)
  with Cons.prems have "fst ` set items \<subseteq> fst ` set ?doms'"
    by (metis (no_types, lifting) insert_subset list.set_map list.simps(15) image_insert)
  from Cons.IH[OF this] k show ?case by (simp add: item)
qed

lemma keys_enforce_node_consistency:
  "map fst (enforce_node_consistency doms) = map fst doms"
  unfolding enforce_node_consistency_def by (rule keys_node_loop) simp

lemma map_of_enforce_node_consistency:
  assumes "distinct (map fst doms)"
  shows "map_of (enforce_node_consistency doms) v =
     map_option (filter (\<lambda>w. int (length w) = var_length v)) (map_of doms v)"
  unfolding enforce_node_consistency_def map_of_node_loop[OF assms]
  by (simp split: option.splits)

text \<open>
  C8. After \<open>enforce_node_consistency\<close>, the domain of every variable \<open>v\<close> consists of the
  words of its former domain whose length is \<open>v.length\<close>: every remaining word has that
  length, a word was removed exactly when its length differs, and no variable is added
  to or dropped from the store.
\<close>

theorem enforce_node_consistency_correct:
  assumes "distinct (map fst doms)" and "map_of doms v = Some ws"
  shows "\<exists>ws'. map_of (enforce_node_consistency doms) v = Some ws' \<and>
           ws' = filter (\<lambda>w. int (length w) = var_length v) ws \<and>
           (\<forall>w \<in> set ws'. int (length w) = var_length v) \<and>
           set ws - set ws' = {w \<in> set ws. int (length w) \<noteq> var_length v} \<and>
           map fst (enforce_node_consistency doms) = map fst doms"
  using assms by (auto simp: map_of_enforce_node_consistency keys_enforce_node_consistency)

theorem enforce_node_consistency_correct_witness:
  "distinct (map fst (init_domains one_slot)) \<and>
   map_of (init_domains one_slot) slot3 = Some [''cat'', ''dog'', ''ax''] \<and>
   map_of (enforce_node_consistency (init_domains one_slot)) slot3 = Some [''cat'', ''dog'']"
proof -
  have d: "distinct (map fst (init_domains one_slot))"
    by (simp add: init_domains_def one_slot_def)
  have m: "map_of (init_domains one_slot) slot3 = Some [''cat'', ''dog'', ''ax'']"
    by (simp add: init_domains_def one_slot_def)
  have l: "var_length slot3 = 3" by (simp add: slot3_def mkvar_def)
  from enforce_node_consistency_correct[OF d m] d m show ?thesis
    by (simp add: l)
qed

section \<open>Well-formed puzzles\<close>

lemma wf_overlap_keys:
  assumes "wf_crossword cw" and "map_of (overlaps cw) (x, y) = Some r"
  shows "x \<in> set (variables cw)" and "y \<in> set (variables cw)" and "x \<noteq> y"
proof -
  from assms(2) have "((x, y), r) \<in> set (overlaps cw)" by (rule map_of_SomeD)
  with assms(1) have "wf_entry cw ((x, y), r)"
    by (simp add: wf_crossword_def list_all_iff)
  then show "x \<in> set (variables cw)" and "y \<in> set (variables cw)" and "x \<noteq> y"
    by (simp_all add: wf_entry_def)
qed

lemma wf_overlap_sym:
  assumes "wf_crossword cw" and "map_of (overlaps cw) (x, y) = Some (Some (i, j))"
  shows "map_of (overlaps cw) (y, x) = Some (Some (j, i))"
    and "0 \<le> i" and "i < var_length x" and "0 \<le> j" and "j < var_length y"
proof -
  from assms(2) have "((x, y), Some (i, j)) \<in> set (overlaps cw)" by (rule map_of_SomeD)
  with assms(1) have "wf_entry cw ((x, y), Some (i, j))"
    by (simp add: wf_crossword_def list_all_iff)
  then show "map_of (overlaps cw) (y, x) = Some (Some (j, i))"
    and "0 \<le> i" and "i < var_length x" and "0 \<le> j" and "j < var_length y"
    by (simp_all add: wf_entry_def)
qed

lemma wf_overlap_total:
  assumes "wf_crossword cw" and "x \<in> set (variables cw)" and "y \<in> set (variables cw)"
    and "x \<noteq> y"
  shows "\<exists>r. map_of (overlaps cw) (x, y) = Some r"
proof -
  from assms(1) have "\<forall>x\<in>set (variables cw). \<forall>y\<in>set (variables cw).
      x = y \<or> map_of (overlaps cw) (x, y) \<noteq> None"
    unfolding wf_crossword_def list_all_iff by blast
  with assms(2-4) have "map_of (overlaps cw) (x, y) \<noteq> None" by blast
  then show ?thesis by blast
qed

lemma neighbors_iff:
  assumes "wf_crossword cw"
  shows "u \<in> set (neighbors cw x) \<longleftrightarrow> (\<exists>i j. map_of (overlaps cw) (x, u) = Some (Some (i, j)))"
proof
  assume "u \<in> set (neighbors cw x)"
  then show "\<exists>i j. map_of (overlaps cw) (x, u) = Some (Some (i, j))"
    by (auto simp: neighbors_def has_overlap_def split: option.splits)
next
  assume "\<exists>i j. map_of (overlaps cw) (x, u) = Some (Some (i, j))"
  then obtain i j where o: "map_of (overlaps cw) (x, u) = Some (Some (i, j))" by blast
  from wf_overlap_keys(2)[OF assms o] o show "u \<in> set (neighbors cw x)"
    by (simp add: neighbors_def has_overlap_def)
qed

lemma neighbors_sym:
  assumes "wf_crossword cw" and "u \<in> set (neighbors cw x)"
  shows "x \<in> set (neighbors cw u)"
  using assms wf_overlap_sym(1)[OF assms(1)] by (metis neighbors_iff)

lemma mem_initial_arcs:
  "arc \<in> set (initial_arcs cw) \<longleftrightarrow> (\<exists>r. (arc, Some r) \<in> set (overlaps cw))"
  by (force simp: initial_arcs_def)

lemma initial_arcs_overlap:
  assumes "wf_crossword cw"
  shows "(x, y) \<in> set (initial_arcs cw) \<longleftrightarrow>
     (\<exists>i j. map_of (overlaps cw) (x, y) = Some (Some (i, j)))"
proof -
  from assms have d: "distinct (map fst (overlaps cw))" by (simp add: wf_crossword_def)
  show ?thesis unfolding mem_initial_arcs using map_of_eq_Some_iff[OF d] by auto
qed

section \<open>Agreement at the overlap\<close>

lemma agree_sym: "agree i j w1 w2 = Inr b \<longleftrightarrow> agree j i w2 w1 = Inr b"
  by (auto simp: agree_def split: sum.splits)

lemma agree_True_iff:
  "agree i j w1 w2 = Inr True \<longleftrightarrow> (\<exists>c. str_index w1 i = Inr c \<and> str_index w2 j = Inr c)"
  by (auto simp: agree_def split: sum.splits)

lemma find_support_False:
  "find_support i j w1 ws = Inr False \<longleftrightarrow> (\<forall>w2 \<in> set ws. agree i j w1 w2 = Inr False)"
  by (induction ws) (auto split: sum.splits)

lemma find_support_True:
  "find_support i j w1 ws = Inr True \<Longrightarrow> \<exists>w2 \<in> set ws. agree i j w1 w2 = Inr True"
  by (induction ws) (auto split: sum.splits if_splits)

lemma find_support_filter:
  "find_support i j w1 ws = Inr True \<Longrightarrow>
   (\<And>w2. w2 \<in> set ws \<Longrightarrow> agree i j w1 w2 = Inr True \<Longrightarrow> keep w2) \<Longrightarrow>
   find_support i j w1 (filter keep ws) = Inr True"
proof (induction ws)
  case Nil
  then show ?case by simp
next
  case (Cons w2 ws)
  show ?case
  proof (cases "agree i j w1 w2")
    case (Inl e)
    with Cons.prems(1) show ?thesis by simp
  next
    case (Inr b)
    show ?thesis
    proof (cases b)
      case True
      with Inr Cons.prems(2)[of w2] have "keep w2" by simp
      with Inr True show ?thesis by simp
    next
      case False
      with Inr Cons.prems(1) have "find_support i j w1 ws = Inr True" by simp
      then have "find_support i j w1 (filter keep ws) = Inr True"
        by (rule Cons.IH) (simp add: Cons.prems(2))
      with Inr False show ?thesis by simp
    qed
  qed
qed

section \<open>Revising an arc\<close>

lemma difference_update_Nil: "difference_update ws [] = ws"
  by (simp add: difference_update_def)

lemma difference_update_filter:
  "difference_update ws (filter P ws) = filter (\<lambda>w. \<not> P w) ws"
  unfolding difference_update_def by (rule filter_cong) auto

lemma revise_overlap:
  assumes "map_of (overlaps cw) (x, y) = Some (Some (i, j))"
  shows "revise cw doms x y = Inr (revision, doms') \<longleftrightarrow>
     (\<exists>wsx wsy. map_of doms x = Some wsx \<and> map_of doms y = Some wsy \<and>
        (\<forall>w \<in> set wsx. \<exists>b. find_support i j w wsy = Inr b) \<and>
        (revision \<longleftrightarrow> (\<exists>w \<in> set wsx. find_support i j w wsy = Inr False)) \<and>
        doms' = AList.update x (filter (\<lambda>w. find_support i j w wsy \<noteq> Inr False) wsx) doms)"
proof (cases "map_of doms x")
  case None
  then show ?thesis by (simp add: revise_def assms)
next
  case sx: (Some wsx)
  show ?thesis
  proof (cases "map_of doms y")
    case None
    then show ?thesis by (simp add: revise_def assms sx)
  next
    case sy: (Some wsy)
    show ?thesis
    proof (cases "unsupported i j wsx wsy []")
      case (Inl e)
      then have "\<not> (\<forall>w \<in> set wsx. \<exists>b. find_support i j w wsy = Inr b)"
        using unsupported_char[of i j wsx wsy "[]"] by auto
      with Inl show ?thesis by (simp add: revise_def assms sx sy)
    next
      case (Inr to_removed)
      then have all: "\<forall>w \<in> set wsx. \<exists>b. find_support i j w wsy = Inr b"
        and tr: "to_removed = filter (\<lambda>w. find_support i j w wsy = Inr False) wsx"
        using unsupported_char[of i j wsx wsy "[]" to_removed] by auto
      have ne: "to_removed \<noteq> [] \<longleftrightarrow> (\<exists>w \<in> set wsx. find_support i j w wsy = Inr False)"
        unfolding tr by (simp add: filter_empty_conv)
      have "revise cw doms x y =
          Inr (to_removed \<noteq> [], AList.update x (difference_update wsx to_removed) doms)"
        by (simp add: revise_def assms sx sy Inr)
      then show ?thesis
        unfolding tr difference_update_filter using all ne[unfolded tr] sx sy by auto
    qed
  qed
qed

lemma revise_False_same:
  assumes "revise cw doms x y = Inr (False, doms')"
  shows "doms' = doms"
  using assms
proof (cases rule: revise_cases)
  case no_overlap
  then show ?thesis by simp
next
  case (overlap i j word_v1 word_v2 to_removed)
  then show ?thesis by (simp add: difference_update_Nil update_triv)
qed

lemma stable_arc_iff:
  assumes "map_of (overlaps cw) (x, y) = Some (Some (i, j))"
  shows "stable_arc cw doms (x, y) \<longleftrightarrow>
     (\<exists>wsx wsy. map_of doms x = Some wsx \<and> map_of doms y = Some wsy \<and>
        (\<forall>w \<in> set wsx. find_support i j w wsy = Inr True))"
proof
  assume "stable_arc cw doms (x, y)"
  then have "revise cw doms x y = Inr (False, doms)" by (simp add: stable_arc_def)
  then obtain wsx wsy where l: "map_of doms x = Some wsx" "map_of doms y = Some wsy"
    and a: "\<forall>w \<in> set wsx. \<exists>b. find_support i j w wsy = Inr b"
    and n: "\<not> (\<exists>w \<in> set wsx. find_support i j w wsy = Inr False)"
    unfolding revise_overlap[OF assms] by blast
  have "\<forall>w \<in> set wsx. find_support i j w wsy = Inr True"
  proof
    fix w assume w: "w \<in> set wsx"
    with a obtain b where b: "find_support i j w wsy = Inr b" by blast
    with n w show "find_support i j w wsy = Inr True" by (cases b) auto
  qed
  with l show "\<exists>wsx wsy. map_of doms x = Some wsx \<and> map_of doms y = Some wsy \<and>
        (\<forall>w \<in> set wsx. find_support i j w wsy = Inr True)" by blast
next
  assume "\<exists>wsx wsy. map_of doms x = Some wsx \<and> map_of doms y = Some wsy \<and>
        (\<forall>w \<in> set wsx. find_support i j w wsy = Inr True)"
  then obtain wsx wsy where l: "map_of doms x = Some wsx" "map_of doms y = Some wsy"
    and t: "\<forall>w \<in> set wsx. find_support i j w wsy = Inr True" by blast
  from t have f: "filter (\<lambda>w. find_support i j w wsy \<noteq> Inr False) wsx = wsx"
    by (simp add: filter_id_conv)
  have "revise cw doms x y = Inr (False, doms)"
    unfolding revise_overlap[OF assms]
    using l t by (auto simp: f update_triv)
  then show "stable_arc cw doms (x, y)" by (simp add: stable_arc_def)
qed

section \<open>The invariant of the propagation loop\<close>

lemma arcs_invariant_not_revised:
  assumes "arcs_invariant cw doms (arc # arcs)"
    and "revise cw doms (fst arc) (snd arc) = Inr (False, doms')"
  shows "arcs_invariant cw doms' arcs"
proof -
  from assms(2) have same: "doms' = doms" by (rule revise_False_same)
  with assms(2) have "stable_arc cw doms arc" by (simp add: stable_arc_def)
  with assms(1) show ?thesis unfolding arcs_invariant_def same by (metis set_ConsD)
qed

lemma arcs_invariant_revised:
  assumes wf: "wf_crossword cw"
    and inv: "arcs_invariant cw doms ((x, y) # arcs)"
    and rv: "revise cw doms x y = Inr (True, doms')"
  shows "arcs_invariant cw doms'
     (arcs @ map (\<lambda>var. (var, x)) (filter (\<lambda>var. var \<noteq> y) (neighbors cw x)))"
proof -
  from rv obtain i j where ov: "map_of (overlaps cw) (x, y) = Some (Some (i, j))"
    by (cases rule: revise_cases) auto
  from wf ov have xy: "x \<noteq> y" by (rule wf_overlap_keys(3))
  from wf ov have vo: "map_of (overlaps cw) (y, x) = Some (Some (j, i))"
    by (rule wf_overlap_sym(1))
  define keep where "keep w wsy \<longleftrightarrow> find_support i j w wsy \<noteq> Inr False" for w wsy
  from rv obtain wsx wsy where sx: "map_of doms x = Some wsx" and sy: "map_of doms y = Some wsy"
    and all: "\<forall>w \<in> set wsx. \<exists>b. find_support i j w wsy = Inr b"
    and d': "doms' = AList.update x (filter (\<lambda>w. keep w wsy) wsx) doms"
    unfolding revise_overlap[OF ov] keep_def by blast
  have look: "map_of doms' v = (if v = x then Some (filter (\<lambda>w. keep w wsy) wsx) else map_of doms v)"
    for v by (simp add: d' update_conv')
  show ?thesis
    unfolding arcs_invariant_def
  proof (intro allI impI)
    fix u v i' j'
    assume o: "map_of (overlaps cw) (u, v) = Some (Some (i', j'))"
    let ?new = "arcs @ map (\<lambda>var. (var, x)) (filter (\<lambda>var. var \<noteq> y) (neighbors cw x))"
    from wf o have uv: "u \<noteq> v" by (rule wf_overlap_keys(3))
    show "(u, v) \<in> set ?new \<or> stable_arc cw doms' (u, v)"
    proof (cases "(u, v) \<in> set ?new")
      case True
      then show ?thesis by blast
    next
      case notin: False
      then have nr: "(u, v) \<notin> set arcs" by simp
      have "stable_arc cw doms' (u, v)"
      proof (cases "(u, v) = (x, y)")
        case True
        with o ov have ij: "i' = i" "j' = j" by simp_all
        have "\<forall>w \<in> set (filter (\<lambda>w. keep w wsy) wsx). find_support i j w wsy = Inr True"
        proof
          fix w assume "w \<in> set (filter (\<lambda>w. keep w wsy) wsx)"
          then have w: "w \<in> set wsx" and k: "find_support i j w wsy \<noteq> Inr False"
            by (simp_all add: keep_def)
          from all w obtain b where "find_support i j w wsy = Inr b" by blast
          with k show "find_support i j w wsy = Inr True" by (cases b) auto
        qed
        then show ?thesis
          unfolding True stable_arc_iff[OF ov] look using xy sy by simp
      next
        case False
        with inv o nr have "stable_arc cw doms (u, v)"
          unfolding arcs_invariant_def by (metis set_ConsD)
        then obtain wsu wsv where su: "map_of doms u = Some wsu" and sv: "map_of doms v = Some wsv"
          and t: "\<forall>w \<in> set wsu. find_support i' j' w wsv = Inr True"
          unfolding stable_arc_iff[OF o] by blast
        show ?thesis
        proof (cases "v = x")
          case vx: False
          show ?thesis
          proof (cases "u = x")
            case True
            with su sx have "wsu = wsx" by simp
            with t have "\<forall>w \<in> set (filter (\<lambda>w. keep w wsy) wsx). find_support i' j' w wsv = Inr True"
              by simp
            then show ?thesis
              unfolding stable_arc_iff[OF o] look using vx True sv by simp
          next
            case False
            then show ?thesis
              unfolding stable_arc_iff[OF o] look using vx su sv t by simp
          qed
        next
          case vx: True
          with uv have ux: "u \<noteq> x" by simp
          have uy: "u = y"
          proof (rule ccontr)
            assume ny: "u \<noteq> y"
            from wf o have "map_of (overlaps cw) (v, u) = Some (Some (j', i'))"
              by (rule wf_overlap_sym(1))
            with vx have "u \<in> set (neighbors cw x)"
              unfolding neighbors_iff[OF wf] by blast
            with ny vx have "(u, v) \<in> set ?new" by simp
            with notin show False by contradiction
          qed
          with o vo vx have ij: "i' = j" "j' = i" by simp_all
          from su sy uy have wsu: "wsu = wsy" by simp
          from sv sx vx have wsv: "wsv = wsx" by simp
          have "\<forall>b \<in> set wsy. find_support j i b (filter (\<lambda>w. keep w wsy) wsx) = Inr True"
          proof
            fix b assume b: "b \<in> set wsy"
            with t have fs: "find_support j i b wsx = Inr True" by (simp add: wsu wsv ij)
            show "find_support j i b (filter (\<lambda>w. keep w wsy) wsx) = Inr True"
              using fs
            proof (rule find_support_filter)
              fix a assume "a \<in> set wsx" and "agree j i b a = Inr True"
              then have "agree i j a b = Inr True" by (simp add: agree_sym[of j i b a])
              with b have "\<exists>w2 \<in> set wsy. agree i j a w2 \<noteq> Inr False"
                by (intro bexI[of _ b]) simp_all
              then have "find_support i j a wsy \<noteq> Inr False"
                unfolding find_support_False by blast
              then show "keep a wsy" by (simp add: keep_def)
            qed
          qed
          then show ?thesis
            unfolding stable_arc_iff[OF o] look using vx ux uy sy ij by simp
        qed
      qed
      then show ?thesis by blast
    qed
  qed
qed

lemma ac3_loop_invariant:
  "wf_crossword cw \<Longrightarrow> arcs_invariant cw doms arcs \<Longrightarrow>
   ac3_loop cw doms arcs = Inr (None, doms') \<Longrightarrow> arcs_invariant cw doms' []"
proof (induction cw doms arcs rule: ac3_loop.induct)
  case (1 cw doms)
  then show ?case by simp
next
  case (2 cw doms arc arcs)
  note wf = "2.prems"(1) and inv = "2.prems"(2) and run = "2.prems"(3)
  show ?case
  proof (cases "revise cw doms (fst arc) (snd arc)")
    case (Inl e)
    with run show ?thesis by simp
  next
    case (Inr p)
    obtain revision d1 where p: "p = (revision, d1)" by (cases p)
    note rv = Inr[unfolded p]
    show ?thesis
    proof (cases revision)
      case False
      with run rv have r: "ac3_loop cw d1 arcs = Inr (None, doms')" by simp
      from inv rv False have "arcs_invariant cw d1 arcs"
        by (auto intro: arcs_invariant_not_revised)
      from "2.IH"(2)[OF rv refl False wf this r] show ?thesis .
    next
      case True
      show ?thesis
      proof (cases "map_of d1 (fst arc)")
        case None
        with run rv True show ?thesis by simp
      next
        case (Some ws)
        show ?thesis
        proof (cases "length ws = 0")
          case e: True
          with run rv True Some show ?thesis by simp
        next
          case ne: False
          let ?new = "arcs @ map (\<lambda>var. (var, fst arc))
              (filter (\<lambda>var. var \<noteq> snd arc) (neighbors cw (fst arc)))"
          from run rv True Some ne have r: "ac3_loop cw d1 ?new = Inr (None, doms')" by simp
          from inv have "arcs_invariant cw doms ((fst arc, snd arc) # arcs)" by simp
          moreover from rv True have "revise cw doms (fst arc) (snd arc) = Inr (True, d1)"
            by simp
          ultimately have "arcs_invariant cw d1 ?new"
            by (rule arcs_invariant_revised[OF wf])
          from "2.IH"(1)[OF rv refl True Some ne wf this r] show ?thesis .
        qed
      qed
    qed
  qed
qed

lemma ac3_loop_stable:
  "\<forall>arc \<in> set arcs. stable_arc cw doms arc \<Longrightarrow> ac3_loop cw doms arcs = Inr (None, doms)"
  by (induction arcs) (simp_all add: stable_arc_def)

lemma arcs_invariant_initial:
  assumes "wf_crossword cw"
  shows "arcs_invariant cw doms (initial_arcs cw)"
  unfolding arcs_invariant_def initial_arcs_overlap[OF assms] by blast

lemma ac3_stable:
  assumes "wf_crossword cw" and "ac3 cw doms None = Inr (None, doms')"
    and "map_of (overlaps cw) (x, y) = Some (Some (i, j))"
  shows "stable_arc cw doms' (x, y)"
proof -
  from assms(2) have "ac3_loop cw doms (initial_arcs cw) = Inr (None, doms')"
    by (simp add: ac3_def)
  with ac3_loop_invariant[OF assms(1) arcs_invariant_initial[OF assms(1)]]
  have "arcs_invariant cw doms' []" by blast
  with assms(3) show ?thesis unfolding arcs_invariant_def by simp
qed

lemma wf_two_slots: "wf_crossword two_slots"
  by (simp add: wf_crossword_def wf_entry_def two_slots_def slot_x_def slot_y_def mkvar_def)

lemma ac3_two_slots:
  "ac3 two_slots (enforce_node_consistency (init_domains two_slots)) None =
     Inr (None, two_slots_pruned)"
  by code_simp

text \<open>
  C7. After \<open>ac3\<close> has run from the list of all overlapping pairs and has not reported
  failure, every word \<open>w\<close> left in the domain of a variable \<open>x\<close> has, for every neighbour
  \<open>y\<close> of \<open>x\<close> with overlap \<open>(i, j)\<close>, a word in the domain of \<open>y\<close> whose letter \<open>j\<close> is the
  letter \<open>i\<close> of \<open>w\<close>.
\<close>

theorem ac3_arc_consistent:
  assumes "wf_crossword cw" and "ac3 cw doms None = Inr (None, doms')"
    and "y \<in> set (neighbors cw x)" and "map_of (overlaps cw) (x, y) = Some (Some (i, j))"
    and "map_of doms' x = Some wsx" and "w \<in> set wsx"
  shows "\<exists>wsy w2 c. map_of doms' y = Some wsy \<and> w2 \<in> set wsy \<and>
           str_index w i = Inr c \<and> str_index w2 j = Inr c"
proof -
  from ac3_stable[OF assms(1,2,4)] obtain wsx' wsy where
    "map_of doms' x = Some wsx'" and sy: "map_of doms' y = Some wsy"
    and t: "\<forall>w \<in> set wsx'. find_support i j w wsy = Inr True"
    unfolding stable_arc_iff[OF assms(4)] by blast
  with assms(5,6) have "find_support i j w wsy = Inr True" by simp
  then obtain w2 where "w2 \<in> set wsy" and "agree i j w w2 = Inr True"
    by (blast dest: find_support_True)
  with sy show ?thesis unfolding agree_True_iff by blast
qed

theorem ac3_arc_consistent_witness:
  "wf_crossword two_slots \<and>
   ac3 two_slots (enforce_node_consistency (init_domains two_slots)) None
     = Inr (None, two_slots_pruned) \<and>
   slot_y \<in> set (neighbors two_slots slot_x) \<and>
   map_of (overlaps two_slots) (slot_x, slot_y) = Some (Some (2, 0)) \<and>
   map_of two_slots_pruned slot_x = Some [''cat''] \<and> ''cat'' \<in> set [''cat''] \<and>
   (\<exists>wsy w2 c. map_of two_slots_pruned slot_y = Some wsy \<and> w2 \<in> set wsy \<and>
      str_index ''cat'' 2 = Inr c \<and> str_index w2 0 = Inr c)"
proof -
  have n: "slot_y \<in> set (neighbors two_slots slot_x)"
    by (simp add: neighbors_def has_overlap_def two_slots_def slot_x_def slot_y_def mkvar_def)
  have o: "map_of (overlaps two_slots) (slot_x, slot_y) = Some (Some (2, 0))"
    by (simp add: two_slots_def)
  have m: "map_of two_slots_pruned slot_x = Some [''cat'']"
    by (simp add: two_slots_pruned_def)
  have w: "''cat'' \<in> set [''cat'']" by simp
  from ac3_arc_consistent[OF wf_two_slots ac3_two_slots n o m w] wf_two_slots ac3_two_slots n o m
  show ?thesis by simp
qed

text \<open>
  On a domain store that \<open>ac3\<close> has produced without returning \<open>False\<close>, a second run of
  \<open>ac3\<close> leaves the domain of every variable as it is and returns what the first run
  returned, which is \<open>None\<close>.
\<close>

lemma ac3_rerun_same:
  assumes "wf_crossword cw" and "ac3 cw doms None = Inr (None, doms')"
  shows "ac3 cw doms' None = Inr (None, doms')"
proof -
  have "\<forall>arc \<in> set (initial_arcs cw). stable_arc cw doms' arc"
  proof
    fix arc assume a: "arc \<in> set (initial_arcs cw)"
    obtain x y where arc: "arc = (x, y)" by (cases arc)
    from a obtain i j where "map_of (overlaps cw) (x, y) = Some (Some (i, j))"
      unfolding arc initial_arcs_overlap[OF assms(1)] by blast
    from ac3_stable[OF assms this] show "stable_arc cw doms' arc" by (simp add: arc)
  qed
  then show ?thesis unfolding ac3_def by (simp add: ac3_loop_stable)
qed

lemma ac3_rerun_two_slots:
  "ac3 two_slots two_slots_pruned None = Inr (None, two_slots_pruned)"
  by (rule ac3_rerun_same[OF wf_two_slots ac3_two_slots])

section \<open>Where the code departs from its documentation\<close>

subsection \<open>The value returned by \<open>ac3\<close>\<close>

lemma ac3_loop_never_True: "ac3_loop cw doms arcs \<noteq> Inr (Some True, doms')"
proof (induction cw doms arcs rule: ac3_loop.induct)
  case (1 cw doms)
  show ?case by simp
next
  case (2 cw doms arc arcs)
  show ?case
  proof (cases "revise cw doms (fst arc) (snd arc)")
    case (Inl e)
    then show ?thesis by simp
  next
    case (Inr p)
    obtain revision d1 where p: "p = (revision, d1)" by (cases p)
    note rv = Inr[unfolded p]
    show ?thesis
    proof (cases revision)
      case False
      from "2.IH"(2)[OF rv refl False] rv False show ?thesis by simp
    next
      case True
      show ?thesis
      proof (cases "map_of d1 (fst arc)")
        case None
        with rv True show ?thesis by simp
      next
        case (Some ws)
        show ?thesis
        proof (cases "length ws = 0")
          case e: True
          with rv True Some show ?thesis by simp
        next
          case ne: False
          from "2.IH"(1)[OF rv refl True Some ne] rv True Some ne show ?thesis by simp
        qed
      qed
    qed
  qed
qed

lemma ac3_loop_False_empty:
  "ac3_loop cw doms arcs = Inr (Some False, doms') \<Longrightarrow> \<exists>x. map_of doms' x = Some []"
proof (induction cw doms arcs rule: ac3_loop.induct)
  case (1 cw doms)
  then show ?case by simp
next
  case (2 cw doms arc arcs)
  note run = "2.prems"
  show ?case
  proof (cases "revise cw doms (fst arc) (snd arc)")
    case (Inl e)
    with run show ?thesis by simp
  next
    case (Inr p)
    obtain revision d1 where p: "p = (revision, d1)" by (cases p)
    note rv = Inr[unfolded p]
    show ?thesis
    proof (cases revision)
      case False
      with run rv have "ac3_loop cw d1 arcs = Inr (Some False, doms')" by simp
      from "2.IH"(2)[OF rv refl False this] show ?thesis .
    next
      case True
      show ?thesis
      proof (cases "map_of d1 (fst arc)")
        case None
        with run rv True show ?thesis by simp
      next
        case (Some ws)
        show ?thesis
        proof (cases "length ws = 0")
          case e: True
          with run rv True Some have "doms' = d1" by simp
          with Some e show ?thesis by auto
        next
          case ne: False
          with run rv True Some have "ac3_loop cw d1
              (arcs @ map (\<lambda>var. (var, fst arc))
                 (filter (\<lambda>var. var \<noteq> snd arc) (neighbors cw (fst arc))))
              = Inr (Some False, doms')" by simp
          from "2.IH"(1)[OF rv refl True Some ne this] show ?thesis .
        qed
      qed
    qed
  qed
qed

text \<open>
  C6. The claim: \<open>ac3\<close> returns \<open>False\<close> exactly when a revision empties a domain, and
  \<open>True\<close> when the worklist empties with no domain empty; the docstring of \<open>ac3\<close> promises
  the same. The code does not return \<open>True\<close>. On the one-slot puzzle the worklist is
  empty from the start and no domain is empty, and the method returns \<open>None\<close>: the loop
  ends and the method has no \<open>return True\<close> after it.
\<close>

theorem ac3_returns_None_not_True:
  "wf_crossword one_slot \<and>
   ac3 one_slot (enforce_node_consistency (init_domains one_slot)) None =
     Inr (None, [(slot3, [''cat'', ''dog''])])"
  by (intro conjI) code_simp+

text \<open>
  C10. The claim: on a domain store on which \<open>ac3\<close> has already succeeded, a second run
  of \<open>ac3\<close> leaves the domain of every variable unchanged and reports success. The
  domains are left unchanged, on every well-formed puzzle (\<open>ac3_rerun_same\<close>); the second
  run does not report success. On the two-slot puzzle the first run prunes the store to
  \<open>two_slots_pruned\<close>, which is arc consistent, and the second run returns that store with
  \<open>None\<close>, not with the \<open>True\<close> that the docstring of \<open>ac3\<close> promises: the method has no
  \<open>return True\<close> after its loop.
\<close>

theorem ac3_rerun_returns_None_not_True:
  "wf_crossword two_slots \<and>
   ac3 two_slots (enforce_node_consistency (init_domains two_slots)) None =
     Inr (None, two_slots_pruned) \<and>
   ac3 two_slots two_slots_pruned None = Inr (None, two_slots_pruned) \<and>
   ac3 two_slots two_slots_pruned None \<noteq> Inr (Some True, two_slots_pruned)"
  by (intro conjI) code_simp+

subsection \<open>The consistency check on a word of the wrong length\<close>

lemma wf_corner: "wf_crossword corner"
  by (simp add: wf_crossword_def wf_entry_def corner_def across_x_def down_y_def mkvar_def)

text \<open>
  C9. The claim: for every assignment, \<open>consistent\<close> returns \<open>False\<close> when a word is
  repeated, when the length of a word differs from that of its variable, or when two
  assigned neighbours disagree at their overlap, and \<open>True\<close> otherwise. The code raises
  on some assignments with a word of the wrong length. Here the word assigned to
  \<open>down_y\<close> has length 1 and the slot has length 3, so the assignment must be rejected
  with \<open>False\<close>. The loop reaches \<open>across_x\<close> first, whose
  word has the right length, and indexes the word of its neighbour \<open>down_y\<close> at 2 before
  the length of that word has been looked at: \<open>IndexError\<close>.
\<close>

theorem consistent_raises_on_short_word:
  "wf_crossword corner \<and>
   consistent corner [(across_x, ''cat''), (down_y, ''a'')] = Inl IndexError"
  using wf_corner by (intro conjI) code_simp+

subsection \<open>Bindings that backtracking leaves behind\<close>

lemma wf_two_separate: "wf_crossword two_separate"
  by (simp add: wf_crossword_def wf_entry_def two_separate_def sep_x_def sep_y_def mkvar_def)

text \<open>
  C1. The claim: a binding that leads to failure is removed before the next candidate
  is tried, so a call of \<open>backtrack\<close> that returns failure leaves the assignment as it
  was given. The code leaves bindings behind. Two slots that do not cross and the single
  word cat. The call of \<open>backtrack\<close> on
  the assignment \<open>{sep_x: cat}\<close> tries \<open>sep_y = cat\<close>, which the consistency check
  rejects; \<open>assignment.pop(var)\<close> stands inside the branch of the successful check, so
  the rejected binding stays. The call returns \<open>None\<close> and leaves \<open>{sep_x: cat, sep_y: cat}\<close>,
  not the assignment it was given; the call on the empty assignment, which \<open>solve\<close>
  makes, returns \<open>None\<close> and leaves \<open>{sep_y: cat}\<close>.
\<close>

theorem backtrack_leaves_rejected_binding:
  "wf_crossword two_separate \<and>
   ac3 two_separate (enforce_node_consistency (init_domains two_separate)) None =
     Inr (None, [(sep_x, [''cat'']), (sep_y, [''cat''])]) \<and>
   backtrack two_separate [(sep_x, [''cat'']), (sep_y, [''cat''])] [(sep_x, ''cat'')] =
     Inr (None, [(sep_x, ''cat''), (sep_y, ''cat'')]) \<and>
   backtrack two_separate [(sep_x, [''cat'']), (sep_y, [''cat''])] [] =
     Inr (None, [(sep_y, ''cat'')])"
  using wf_two_separate by (intro conjI) code_simp+

subsection \<open>A solution that the search misses\<close>

lemma wf_gate_missed: "wf_crossword gate_missed"
  by (simp add: wf_crossword_def wf_entry_def gate_missed_def gate_overlaps_def
      gate_x_def gate_y_def gate_z_def mkvar_def)

text \<open>
  C2. The claim: when a complete consistent assignment exists within the initial
  domains, \<open>solve\<close> returns one. The code misses one: \<open>gate_solution\<close> is complete and
  consistent and uses words of the word list only, and \<open>solve\<close> returns \<open>None\<close>. The search binds \<open>gate_y = ab\<close> and \<open>gate_z = axa\<close>, then
  rejects \<open>gate_x = cd\<close> and \<open>gate_x = ab\<close>; the rejected binding \<open>gate_x = ab\<close> is never
  removed, so \<open>gate_z = cxa\<close> is rejected next for the repeated word ab, and \<open>gate_x = cd\<close>
  is never tried with it.
\<close>

theorem solve_misses_solution:
  "wf_crossword gate_missed \<and>
   solve gate_missed = Inr None \<and>
   assignment_complete gate_missed gate_solution \<and>
   consistent gate_missed gate_solution = Inr True \<and>
   list_all (\<lambda>(var, w). w \<in> set (words gate_missed)) gate_solution"
  using wf_gate_missed by (intro conjI) code_simp+

subsection \<open>The order of the values\<close>

lemma wf_gate_counts: "wf_crossword gate_counts"
  by (simp add: wf_crossword_def wf_entry_def gate_counts_def gate_overlaps_def
      gate_x_def gate_y_def gate_z_def mkvar_def)

text \<open>
  C4. The claim: \<open>order_domain_values\<close> returns the words of the domain sorted ascending
  by the number of words they eliminate, summed over the unassigned neighbours. The code
  does not sum. In the store that node and arc consistency leave for \<open>gate_counts\<close>, the word abc of
  \<open>gate_z\<close> eliminates 3 words of \<open>gate_x\<close> and 1 of \<open>gate_y\<close>, and dbe eliminates 1 and 2:
  ascending by the sum, dbe (3) comes before abc (4). The method stores the count of one
  neighbour over that of the one before (\<open>result[w1] = nb_eliminated\<close>), so it sorts by
  the counts for \<open>gate_y\<close> alone and returns abc first.
\<close>

theorem order_domain_values_not_by_sum:
  "wf_crossword gate_counts \<and>
   ac3 gate_counts (enforce_node_consistency (init_domains gate_counts)) None =
     Inr (None, gate_counts_pruned) \<and>
   order_domain_values gate_counts gate_counts_pruned gate_z [] = Inr [''abc'', ''dbe''] \<and>
   elimination_count gate_counts gate_counts_pruned gate_z [] ''abc'' = 4 \<and>
   elimination_count gate_counts gate_counts_pruned gate_z [] ''dbe'' = 3"
  using wf_gate_counts by (intro conjI) code_simp+

text \<open>
  A word that disagrees with no word of any unassigned neighbour gets no entry in
  \<open>result\<close>; when another word has one, the sort key raises \<open>KeyError\<close>.
\<close>

lemma order_domain_values_KeyError:
  "order_domain_values gate_counts
     [(gate_x, [''ax'']), (gate_y, [''cx'']), (gate_z, [''abc'', ''dbe''])] gate_z [] =
   Inl KeyError"
  by code_simp

section \<open>The consistency check\<close>

lemma distinct_count_list:
  "distinct xs \<longleftrightarrow> (\<forall>x \<in> set xs. count_list xs x = 1)"
proof (induction xs)
  case Nil
  show ?case by simp
next
  case (Cons a xs)
  show ?case
  proof
    assume d: "distinct (a # xs)"
    with Cons.IH have "\<forall>x \<in> set xs. count_list xs x = 1" by simp
    with d show "\<forall>x \<in> set (a # xs). count_list (a # xs) x = 1" by auto
  next
    assume c: "\<forall>x \<in> set (a # xs). count_list (a # xs) x = 1"
    then have "count_list xs a = 0" by simp
    then have a: "a \<notin> set xs" by (simp add: count_list_0_iff)
    have "\<forall>x \<in> set xs. count_list xs x = 1"
    proof
      fix x assume x: "x \<in> set xs"
      with a have "a \<noteq> x" by blast
      with c x show "count_list xs x = 1" by auto
    qed
    with Cons.IH a show "distinct (a # xs)" by simp
  qed
qed

lemma unique_counts_distinct:
  "list_all (\<lambda>c. c = 1) (unique_counts vals) \<longleftrightarrow> distinct vals"
  unfolding unique_counts_def distinct_count_list[of vals]
  by (simp add: list_all_iff)

lemma agree_Inr_iff:
  "agree i j w1 w2 = Inr b \<longleftrightarrow>
     (\<exists>c1 c2. str_index w1 i = Inr c1 \<and> str_index w2 j = Inr c2 \<and> b = (c1 = c2))"
  by (auto simp: agree_def split: sum.splits)

lemma str_index_in_range:
  "0 \<le> k \<Longrightarrow> k < int (length w) \<Longrightarrow> \<exists>c. str_index w k = Inr c"
  by (simp add: str_index_def Let_def)

lemma agree_in_range:
  assumes "0 \<le> i" "i < int (length w1)" "0 \<le> j" "j < int (length w2)"
  shows "\<exists>b. agree i j w1 w2 = Inr b"
  using str_index_in_range[OF assms(1,2)] str_index_in_range[OF assms(3,4)]
  unfolding agree_Inr_iff by blast

lemma check_neighbors_True:
  "check_neighbors cw asg var val ns = Inr True \<Longrightarrow>
     list_all (neighbor_agrees cw asg var val) ns"
proof (induction ns)
  case Nil
  show ?case by simp
next
  case (Cons n ns)
  from Cons.prems have a: "neighbor_agrees cw asg var val n"
    by (auto simp: neighbor_agrees_def split: option.splits sum.splits if_splits)
  from Cons.prems have "check_neighbors cw asg var val ns = Inr True"
    by (auto split: option.splits sum.splits if_splits)
  with Cons.IH a show ?case by simp
qed

lemma check_items_True:
  "check_items cw asg items = Inr True \<Longrightarrow> list_all (item_ok cw asg) items"
proof (induction items)
  case Nil
  show ?case by simp
next
  case (Cons item items)
  obtain var val where item: "item = (var, val)" by (cases item)
  from Cons.prems have l: "int (length val) = var_length var"
    by (auto simp: item split: if_splits)
  with Cons.prems have c: "check_neighbors cw asg var val (neighbors cw var) = Inr True"
    by (auto simp: item split: sum.splits if_splits)
  with Cons.prems l have "check_items cw asg items = Inr True"
    by (auto simp: item split: sum.splits if_splits)
  with Cons.IH check_neighbors_True[OF c] l show ?case
    by (simp add: item item_ok_def)
qed

lemma consistent_True:
  assumes "consistent cw asg = Inr True"
  shows "distinct (map snd asg)" and "list_all (item_ok cw asg) asg"
proof -
  from assms have d: "list_all (\<lambda>c. c = 1) (unique_counts (map snd asg))"
    by (auto simp: consistent_def split: if_splits)
  then show "distinct (map snd asg)" by (rule unique_counts_distinct[THEN iffD1])
  from assms d have "check_items cw asg asg = Inr True"
    by (simp add: consistent_def)
  then show "list_all (item_ok cw asg) asg" by (rule check_items_True)
qed

lemma consistent_Nil: "consistent cw [] = Inr True"
  by (simp add: consistent_def unique_counts_def)

section \<open>Soundness of the search\<close>

lemma keys_ok_Nil: "keys_ok cw []"
  by (simp add: keys_ok_def)

lemma keys_ok_update:
  "keys_ok cw asg \<Longrightarrow> var \<in> set (variables cw) \<Longrightarrow> keys_ok cw (AList.update var v asg)"
  unfolding keys_ok_def by (simp add: distinct_update dom_update)

lemma keys_ok_delete: "keys_ok cw asg \<Longrightarrow> keys_ok cw (AList.delete var asg)"
  unfolding keys_ok_def using keys_delete[of var asg] by (auto simp: distinct_delete)

lemma backtrack_try_values_sound:
  "\<forall>res a. backtrack cw doms asg = Inr (res, a) \<longrightarrow> keys_ok cw asg \<longrightarrow>
     keys_ok cw a \<and>
     (\<forall>r. res = Some r \<longrightarrow> consistent cw asg = Inr True \<longrightarrow> r = a \<and> solution cw r)"
  "\<forall>res a. try_values cw doms var vs asg = Inr (res, a) \<longrightarrow> var \<in> set (variables cw) \<longrightarrow>
     keys_ok cw asg \<longrightarrow>
     keys_ok cw a \<and> (\<forall>r. res = Some r \<longrightarrow> r = a \<and> solution cw r)"
proof (induction cw doms asg and cw doms var vs asg rule: backtrack_try_values.induct)
  case (1 cw doms asg)
  note eq = backtrack.simps[of cw doms asg]
  show ?case
  proof (intro allI impI)
    fix res a
    assume run: "backtrack cw doms asg = Inr (res, a)" and k: "keys_ok cw asg"
    show "keys_ok cw a \<and>
      (\<forall>r. res = Some r \<longrightarrow> consistent cw asg = Inr True \<longrightarrow> r = a \<and> solution cw r)"
    proof (cases "assignment_complete cw asg")
      case True
      with run have "res = Some asg" "a = asg" unfolding eq by auto
      with k True show ?thesis by (simp add: solution_def)
    next
      case False
      show ?thesis
      proof (cases "select_unassigned_variable cw doms asg")
        case (Inl e)
        with run False show ?thesis unfolding eq by simp
      next
        case sel: (Inr var)
        show ?thesis
        proof (cases "order_domain_values cw doms var asg")
          case (Inl e)
          with run False sel show ?thesis unfolding eq by simp
        next
          case ord: (Inr vals)
          from run False sel ord have tr: "try_values cw doms var vals asg = Inr (res, a)"
            unfolding eq by simp
          from select_unassigned_variable_unassigned(1)[OF sel]
          have "var \<in> set (variables cw)" .
          with "1.IH"[OF False sel ord] tr k show ?thesis by blast
        qed
      qed
    qed
  qed
next
  case (2 cw doms var asg)
  show ?case by simp
next
  case (3 cw doms var v vs asg)
  note eq = try_values.simps(2)[of cw doms var v vs asg]
  let ?asg1 = "AList.update var v asg"
  show ?case
  proof (intro allI impI)
    fix res a
    assume run: "try_values cw doms var (v # vs) asg = Inr (res, a)"
      and var: "var \<in> set (variables cw)" and k: "keys_ok cw asg"
    from k var have k1: "keys_ok cw ?asg1" by (rule keys_ok_update)
    show "keys_ok cw a \<and> (\<forall>r. res = Some r \<longrightarrow> r = a \<and> solution cw r)"
    proof (cases "consistent cw ?asg1")
      case (Inl e)
      with run show ?thesis unfolding eq by simp
    next
      case c: (Inr ok)
      show ?thesis
      proof (cases ok)
        case False
        with run c have "try_values cw doms var vs ?asg1 = Inr (res, a)"
          unfolding eq by simp
        with "3.IH"(3)[OF c False] var k1 show ?thesis by blast
      next
        case True
        show ?thesis
        proof (cases "backtrack cw doms ?asg1")
          case (Inl e)
          with run c True show ?thesis unfolding eq by simp
        next
          case (Inr p)
          obtain res' asg' where p: "p = (res', asg')" by (cases p)
          note b = Inr[unfolded p]
          from c True have ct: "consistent cw ?asg1 = Inr True" by simp
          from "3.IH"(1)[OF c True] b k1 ct
          have k': "keys_ok cw asg'" and s': "\<forall>r. res' = Some r \<longrightarrow> r = asg' \<and> solution cw r"
            by blast+
          show ?thesis
          proof (cases res')
            case (Some r')
            with run c True b have "res = Some r'" "a = asg'"
              unfolding eq by auto
            with k' s' Some show ?thesis by auto
          next
            case None
            show ?thesis
            proof (cases "var \<in> set (map fst asg')")
              case False
              with run c True b None show ?thesis unfolding eq by simp
            next
              case inn: True
              with run c True b None
              have tr: "try_values cw doms var vs (AList.delete var asg') = Inr (res, a)"
                unfolding eq by simp
              from k' have "keys_ok cw (AList.delete var asg')" by (rule keys_ok_delete)
              with "3.IH"(2)[OF c True b refl None inn] tr var show ?thesis by blast
            qed
          qed
        qed
      qed
    qed
  qed
qed

lemma solve_from_Some:
  assumes "solve_from cw doms = Inr (Some asg)"
  shows "keys_ok cw asg" and "solution cw asg"
proof -
  from assms obtain ret doms' where "ac3 cw (enforce_node_consistency doms) None = Inr (ret, doms')"
    by (auto simp: solve_from_def split: sum.splits)
  with assms obtain a where b: "backtrack cw doms' [] = Inr (Some asg, a)"
    by (auto simp: solve_from_def split: sum.splits)
  from backtrack_try_values_sound(1)[of cw doms' "[]"] b keys_ok_Nil[of cw] consistent_Nil[of cw]
  have "keys_ok cw a \<and> asg = a \<and> solution cw asg" by blast
  then show "keys_ok cw asg" and "solution cw asg" by auto
qed

lemma assignment_complete_iff:
  "assignment_complete cw asg \<longleftrightarrow> set (variables cw) \<subseteq> set (map fst asg)"
  by (auto simp: assignment_complete_def filter_empty_conv)

text \<open>
  C5. An assignment that \<open>solve\<close> returns binds every variable of the puzzle, and no other
  key, to one word; it passes \<open>assignment_complete\<close> and \<open>consistent\<close>; its words are
  pairwise distinct; the word of every variable has the length of the variable; and
  where a neighbour \<open>n\<close> of a variable \<open>var\<close> is bound, the two words agree at the overlap
  of \<open>var\<close> and \<open>n\<close>.
\<close>

theorem solve_sound:
  assumes "solve cw = Inr (Some asg)"
  shows "assignment_complete cw asg \<and> consistent cw asg = Inr True \<and>
         set (map fst asg) = set (variables cw) \<and> distinct (map fst asg) \<and>
         distinct (map snd asg) \<and>
         (\<forall>(var, val) \<in> set asg. int (length val) = var_length var \<and>
            (\<forall>n \<in> set (neighbors cw var). \<forall>w2. map_of asg n = Some w2 \<longrightarrow>
               (\<exists>i j. map_of (overlaps cw) (var, n) = Some (Some (i, j)) \<and>
                      agree i j val w2 = Inr True)))"
proof -
  from assms have s: "solve_from cw (init_domains cw) = Inr (Some asg)"
    by (simp add: solve_def)
  from solve_from_Some[OF s] have k: "keys_ok cw asg" and c: "assignment_complete cw asg"
    and t: "consistent cw asg = Inr True" by (simp_all add: solution_def)
  from k c have keys: "set (map fst asg) = set (variables cw)" "distinct (map fst asg)"
    unfolding keys_ok_def assignment_complete_iff by auto
  have items: "\<forall>(var, val) \<in> set asg. int (length val) = var_length var \<and>
            (\<forall>n \<in> set (neighbors cw var). \<forall>w2. map_of asg n = Some w2 \<longrightarrow>
               (\<exists>i j. map_of (overlaps cw) (var, n) = Some (Some (i, j)) \<and>
                      agree i j val w2 = Inr True))"
  proof (intro ballI, clarify, intro conjI ballI allI impI)
    fix var val
    assume m: "(var, val) \<in> set asg"
    with consistent_True(2)[OF t] have ok: "item_ok cw asg (var, val)"
      by (simp add: list_all_iff)
    then show "int (length val) = var_length var" by (simp add: item_ok_def)
    fix n w2
    assume n: "n \<in> set (neighbors cw var)" and w2: "map_of asg n = Some w2"
    from ok n have "neighbor_agrees cw asg var val n"
      by (simp add: item_ok_def list_all_iff)
    with w2 show "\<exists>i j. map_of (overlaps cw) (var, n) = Some (Some (i, j)) \<and>
        agree i j val w2 = Inr True"
      by (auto simp: neighbor_agrees_def split: option.splits)
  qed
  from c t keys consistent_True(1)[OF t] items show ?thesis by blast
qed

theorem solve_sound_witness:
  "solve two_slots = Inr (Some [(slot_x, ''cat''), (slot_y, ''tar'')]) \<and>
   assignment_complete two_slots [(slot_x, ''cat''), (slot_y, ''tar'')] \<and>
   consistent two_slots [(slot_x, ''cat''), (slot_y, ''tar'')] = Inr True \<and>
   distinct (map snd [(slot_x, ''cat''), (slot_y, ''tar'')])"
proof -
  have s: "solve two_slots = Inr (Some [(slot_x, ''cat''), (slot_y, ''tar'')])"
    by code_simp
  from solve_sound[OF s] s show ?thesis by blast
qed

section \<open>No exception during propagation\<close>

lemma store_ok_lookup:
  assumes "store_ok cw doms" and "v \<in> set (variables cw)"
  shows "\<exists>ws. map_of doms v = Some ws"
proof -
  from assms have "v \<in> fst ` set doms" by (metis store_ok_def list.set_map)
  then have "map_of doms v \<noteq> None" by (simp add: map_of_eq_None_iff)
  then show ?thesis by blast
qed

lemma store_ok_length:
  assumes "store_ok cw doms" and "map_of doms v = Some ws" and "w \<in> set ws"
  shows "int (length w) = var_length v"
proof -
  from assms(2) have "(v, ws) \<in> set doms" by (rule map_of_SomeD)
  with assms(1) have "list_all (\<lambda>w. int (length w) = var_length v) ws"
    by (auto simp: store_ok_def list_all_iff)
  with assms(3) show ?thesis by (simp add: list_all_iff)
qed

lemma set_update_subset:
  "set (AList.update k v al) \<subseteq> insert (k, v) (set al)"
  by (induction al) auto

lemma store_ok_update:
  assumes "store_ok cw doms" and "map_of doms x = Some ws" and "set ws' \<subseteq> set ws"
  shows "store_ok cw (AList.update x ws' doms)"
proof -
  from assms(2) have m: "(x, ws) \<in> set doms" by (rule map_of_SomeD)
  then have "x \<in> set (map fst doms)" by force
  with assms(1) have k: "map fst (AList.update x ws' doms) = variables cw"
    by (simp add: update_keys store_ok_def)
  have "list_all (\<lambda>w. int (length w) = var_length var) us"
    if "(var, us) \<in> set (AList.update x ws' doms)" for var us
  proof (cases "(var, us) \<in> set doms")
    case True
    with assms(1) show ?thesis by (auto simp: store_ok_def list_all_iff)
  next
    case False
    with that set_update_subset[of x ws' doms] have e: "var = x" "us = ws'" by auto
    from assms(1) m have "list_all (\<lambda>w. int (length w) = var_length x) ws"
      by (auto simp: store_ok_def list_all_iff)
    with assms(3) show ?thesis unfolding e by (auto simp: list_all_iff)
  qed
  with k show ?thesis by (auto simp: store_ok_def list_all_iff)
qed

lemma store_ok_initial:
  assumes "wf_crossword cw"
  shows "store_ok cw (enforce_node_consistency (init_domains cw))"
proof -
  let ?d0 = "init_domains cw"
  have k0: "map fst ?d0 = variables cw" by (simp add: init_domains_def comp_def)
  with assms have d0: "distinct (map fst ?d0)" by (simp add: wf_crossword_def)
  have k: "map fst (enforce_node_consistency ?d0) = variables cw"
    by (simp add: keys_enforce_node_consistency k0)
  have "list_all (\<lambda>w. int (length w) = var_length var) us"
    if "(var, us) \<in> set (enforce_node_consistency ?d0)" for var us
  proof -
    from d0 have "distinct (map fst (enforce_node_consistency ?d0))"
      by (simp add: keys_enforce_node_consistency)
    with that have "map_of (enforce_node_consistency ?d0) var = Some us" by simp
    then obtain ws where "us = filter (\<lambda>w. int (length w) = var_length var) ws"
      unfolding map_of_enforce_node_consistency[OF d0] by auto
    then show ?thesis by (simp add: list_all_iff)
  qed
  with k show ?thesis by (auto simp: store_ok_def list_all_iff)
qed

lemma find_support_total:
  "\<forall>w2 \<in> set ws. \<exists>b. agree i j w1 w2 = Inr b \<Longrightarrow> \<exists>b. find_support i j w1 ws = Inr b"
  by (induction ws) auto

lemma agree_total:
  assumes "wf_crossword cw" and "map_of (overlaps cw) (x, y) = Some (Some (i, j))"
    and "int (length w1) = var_length x" and "int (length w2) = var_length y"
  shows "\<exists>b. agree i j w1 w2 = Inr b"
  using wf_overlap_sym(2-5)[OF assms(1,2)] assms(3,4) by (intro agree_in_range) simp_all

lemma revise_total:
  assumes wf: "wf_crossword cw" and ok: "store_ok cw doms"
    and ov: "map_of (overlaps cw) (x, y) = Some r"
  shows "\<exists>revision doms'. revise cw doms x y = Inr (revision, doms') \<and> store_ok cw doms'"
proof -
  from wf_overlap_keys(1,2)[OF wf ov] store_ok_lookup[OF ok]
  obtain wsx wsy where sx: "map_of doms x = Some wsx" and sy: "map_of doms y = Some wsy"
    by blast
  show ?thesis
  proof (cases r)
    case None
    with ov sx sy have "revise cw doms x y = Inr (False, doms)" by (simp add: revise_def)
    with ok show ?thesis by blast
  next
    case (Some p)
    obtain i j where p: "p = (i, j)" by (cases p)
    note o = ov[unfolded Some p]
    have "\<exists>b. find_support i j w wsy = Inr b" if "w \<in> set wsx" for w
    proof (rule find_support_total, rule ballI)
      fix w2 assume "w2 \<in> set wsy"
      with store_ok_length[OF ok sy] store_ok_length[OF ok sx that]
      show "\<exists>b. agree i j w w2 = Inr b" by (intro agree_total[OF wf o]) simp_all
    qed
    then have "revise cw doms x y =
        Inr (\<exists>w \<in> set wsx. find_support i j w wsy = Inr False,
             AList.update x (filter (\<lambda>w. find_support i j w wsy \<noteq> Inr False) wsx) doms)"
      unfolding revise_overlap[OF o] using sx sy by blast
    moreover have "store_ok cw
        (AList.update x (filter (\<lambda>w. find_support i j w wsy \<noteq> Inr False) wsx) doms)"
      by (rule store_ok_update[OF ok sx]) simp
    ultimately show ?thesis by blast
  qed
qed

lemma ac3_loop_total:
  "wf_crossword cw \<Longrightarrow> store_ok cw doms \<Longrightarrow>
   \<forall>arc \<in> set arcs. map_of (overlaps cw) arc \<noteq> None \<Longrightarrow>
   \<exists>ret doms'. ac3_loop cw doms arcs = Inr (ret, doms') \<and> store_ok cw doms'"
proof (induction cw doms arcs rule: ac3_loop.induct)
  case (1 cw doms)
  then show ?case by simp
next
  case (2 cw doms arc arcs)
  note wf = "2.prems"(1) and ok = "2.prems"(2) and arcs = "2.prems"(3)
  from arcs obtain r where "map_of (overlaps cw) (fst arc, snd arc) = Some r" by auto
  from revise_total[OF wf ok this] obtain revision d1 where
    rv: "revise cw doms (fst arc) (snd arc) = Inr (revision, d1)" and ok1: "store_ok cw d1"
    by blast
  from arcs have rest: "\<forall>arc \<in> set arcs. map_of (overlaps cw) arc \<noteq> None" by simp
  show ?case
  proof (cases revision)
    case False
    from "2.IH"(2)[OF rv refl False wf ok1 rest] rv False show ?thesis by simp
  next
    case True
    show ?thesis
    proof (cases "map_of d1 (fst arc)")
      case None
      from arcs have "fst arc \<in> set (variables cw)"
        using wf_overlap_keys(1)[OF wf, of "fst arc" "snd arc"] by auto
      from store_ok_lookup[OF ok1 this] None show ?thesis by simp
    next
      case (Some ws)
      show ?thesis
      proof (cases "length ws = 0")
        case e: True
        with rv True Some ok1 show ?thesis by simp
      next
        case ne: False
        let ?new = "arcs @ map (\<lambda>var. (var, fst arc))
            (filter (\<lambda>var. var \<noteq> snd arc) (neighbors cw (fst arc)))"
        have "\<forall>arc \<in> set ?new. map_of (overlaps cw) arc \<noteq> None"
        proof
          fix a assume a: "a \<in> set ?new"
          show "map_of (overlaps cw) a \<noteq> None"
          proof (cases "a \<in> set arcs")
            case True
            with rest show ?thesis by blast
          next
            case False
            with a obtain u where u: "u \<in> set (neighbors cw (fst arc))" and au: "a = (u, fst arc)"
              by auto
            from u obtain i j where "map_of (overlaps cw) (fst arc, u) = Some (Some (i, j))"
              unfolding neighbors_iff[OF wf] by blast
            from wf_overlap_sym(1)[OF wf this] au show ?thesis by simp
          qed
        qed
        from "2.IH"(1)[OF rv refl True Some ne wf ok1 this] rv True Some ne
        show ?thesis by simp
      qed
    qed
  qed
qed

section \<open>No exception in the choice of a variable\<close>

lemma domain_sizes_total:
  "\<forall>v \<in> set uv. \<exists>ws. map_of doms v = Some ws \<Longrightarrow>
   \<exists>sizes. domain_sizes doms uv = Inr sizes"
  by (induction uv) auto

lemma domain_sizes_mem:
  "domain_sizes doms uv = Inr sizes \<Longrightarrow>
   (v, l) \<in> set sizes \<longleftrightarrow> v \<in> set uv \<and> (\<exists>ws. map_of doms v = Some ws \<and> l = length ws)"
proof (induction uv arbitrary: sizes)
  case Nil
  then show ?case by simp
next
  case (Cons u uv)
  from Cons.prems obtain us where us: "map_of doms u = Some us"
    by (cases "map_of doms u") simp_all
  with Cons.prems obtain rest where rest: "domain_sizes doms uv = Inr rest"
    by (cases "domain_sizes doms uv") simp_all
  with Cons.prems us have sizes: "sizes = (u, length us) # rest" by simp
  show ?case unfolding sizes using Cons.IH[OF rest] us by auto
qed

lemma fewest_values_le: "fewest_values items len \<le> len"
proof (induction items arbitrary: len)
  case Nil
  show ?case by simp
next
  case (Cons item items)
  obtain v l where item: "item = (v, l)" by (cases item)
  show ?case
  proof (cases "enat l < len")
    case True
    with Cons.IH[of "enat l"] show ?thesis by (simp add: item)
  next
    case False
    with Cons.IH[of len] show ?thesis by (simp add: item)
  qed
qed

lemma fewest_values_le_item:
  "(v, l) \<in> set items \<Longrightarrow> fewest_values items len \<le> enat l"
proof (induction items arbitrary: len)
  case Nil
  then show ?case by simp
next
  case (Cons item items)
  obtain v' l' where item: "item = (v', l')" by (cases item)
  show ?case
  proof (cases "(v, l) \<in> set items")
    case True
    from Cons.IH[OF True] show ?thesis by (simp add: item)
  next
    case False
    with Cons.prems have e: "v' = v" "l' = l" by (simp_all add: item)
    show ?thesis
    proof (cases "enat l < len")
      case True
      with fewest_values_le[of items "enat l"] show ?thesis by (simp add: item e)
    next
      case False
      then have "len \<le> enat l" by simp
      with fewest_values_le[of items len] False show ?thesis
        by (simp add: item e)
    qed
  qed
qed

lemma fewest_values_attained:
  "fewest_values items len = len \<or> (\<exists>(v, l) \<in> set items. fewest_values items len = enat l)"
proof (induction items arbitrary: len)
  case Nil
  show ?case by simp
next
  case (Cons item items)
  obtain v l where item: "item = (v, l)" by (cases item)
  show ?case
  proof (cases "enat l < len")
    case True
    with Cons.IH[of "enat l"] show ?thesis by (auto simp: item)
  next
    case False
    with Cons.IH[of len] show ?thesis by (auto simp: item)
  qed
qed

text \<open>
  When some variable is unassigned, \<open>select_unassigned_variable\<close> returns an unassigned
  variable whose domain is among the smallest.
\<close>

lemma select_unassigned_variable_total:
  assumes ok: "store_ok cw doms" and nc: "\<not> assignment_complete cw asg"
  shows "\<exists>var ws. select_unassigned_variable cw doms asg = Inr var \<and>
     map_of doms var = Some ws \<and>
     (\<forall>u us. u \<in> set (variables cw) \<longrightarrow> u \<notin> set (map fst asg) \<longrightarrow>
        map_of doms u = Some us \<longrightarrow> length ws \<le> length us)"
proof -
  let ?uv = "filter (\<lambda>var. var \<notin> set (map fst asg)) (variables cw)"
  from nc have ne: "?uv \<noteq> []" by (simp add: assignment_complete_def split: if_splits)
  have "\<forall>v \<in> set ?uv. \<exists>ws. map_of doms v = Some ws"
    using store_ok_lookup[OF ok] by simp
  from domain_sizes_total[OF this] obtain sizes where
    sizes: "domain_sizes doms ?uv = Inr sizes" by blast
  note mem = domain_sizes_mem[OF sizes]
  define m where "m = fewest_values sizes \<infinity>"
  define cands where "cands = map fst (filter (\<lambda>(var, l). enat l = m) sizes)"
  from ne have "hd ?uv \<in> set ?uv" by (rule hd_in_set)
  then obtain u0 where "u0 \<in> set ?uv" ..
  with store_ok_lookup[OF ok, of u0] mem obtain l0 where i0: "(u0, l0) \<in> set sizes" by auto
  have "m \<noteq> \<infinity>"
  proof
    assume "m = \<infinity>"
    with fewest_values_le_item[OF i0, of \<infinity>] show False by (simp add: m_def)
  qed
  with fewest_values_attained[of sizes \<infinity>] obtain v1 l1 where
    i1: "(v1, l1) \<in> set sizes" and m1: "m = enat l1" by (auto simp: m_def)
  then have "v1 \<in> set cands" by (force simp: cands_def)
  then have cne: "cands \<noteq> []" by auto
  have sel_eq: "select_unassigned_variable cw doms asg =
      (if length cands \<noteq> 1 then
         (case cands of [] \<Rightarrow> Inl IndexError
          | c # cs \<Rightarrow> Inr (cands ! highest_degree cw cs 1 (length (neighbors cw c)) 0))
       else Inr (cands ! 0))"
    unfolding select_unassigned_variable_def Let_def cands_def m_def using sizes by simp
  obtain c cs where cc: "cands = c # cs" using cne by (cases cands) auto
  have "highest_degree cw cs 1 (length (neighbors cw c)) 0 < length cands"
    using highest_degree_bound[of 0 1 cw cs "length (neighbors cw c)"] cc by simp
  moreover have "0 < length cands" using cc by simp
  ultimately obtain k where k: "k < length cands"
    and sel: "select_unassigned_variable cw doms asg = Inr (cands ! k)"
    unfolding sel_eq by (cases "length cands \<noteq> 1") (auto simp: cc)
  from k have "cands ! k \<in> set cands" by simp
  then obtain l where il: "(cands ! k, l) \<in> set sizes" and ml: "enat l = m"
    by (auto simp: cands_def)
  from il mem obtain ws where ws: "map_of doms (cands ! k) = Some ws" and l: "l = length ws"
    by auto
  have "length ws \<le> length us"
    if "u \<in> set (variables cw)" "u \<notin> set (map fst asg)" "map_of doms u = Some us" for u us
  proof -
    from that mem have "(u, length us) \<in> set sizes" by auto
    from fewest_values_le_item[OF this, of \<infinity>] have "m \<le> enat (length us)"
      by (simp add: m_def)
    with ml l have "enat (length ws) \<le> enat (length us)" by simp
    then show ?thesis by simp
  qed
  with sel ws show ?thesis by blast
qed

section \<open>No exception in the consistency check\<close>

lemma lengths_ok_lookup:
  "lengths_ok asg \<Longrightarrow> map_of asg n = Some w \<Longrightarrow> int (length w) = var_length n"
  by (auto simp: lengths_ok_def list_all_iff dest: map_of_SomeD)

lemma lengths_ok_update:
  assumes "lengths_ok asg" and "int (length v) = var_length var"
  shows "lengths_ok (AList.update var v asg)"
  using assms set_update_subset[of var v asg] by (auto simp: lengths_ok_def list_all_iff)

lemma lengths_ok_delete: "lengths_ok asg \<Longrightarrow> lengths_ok (AList.delete var asg)"
  by (auto simp: lengths_ok_def list_all_iff AList.delete_eq)

lemma check_neighbors_total:
  assumes wf: "wf_crossword cw" and ok: "lengths_ok asg"
    and val: "int (length val) = var_length var"
  shows "set ns \<subseteq> set (neighbors cw var) \<Longrightarrow> \<exists>b. check_neighbors cw asg var val ns = Inr b"
proof (induction ns)
  case Nil
  show ?case by auto
next
  case (Cons n ns)
  from Cons.prems have "n \<in> set (neighbors cw var)" by simp
  then obtain i j where o: "map_of (overlaps cw) (var, n) = Some (Some (i, j))"
    unfolding neighbors_iff[OF wf] by blast
  from Cons have ih: "\<exists>b. check_neighbors cw asg var val ns = Inr b" by simp
  show ?case
  proof (cases "map_of asg n")
    case None
    with o ih show ?thesis by simp
  next
    case (Some w2)
    from lengths_ok_lookup[OF ok Some] have "int (length w2) = var_length n" .
    from agree_total[OF wf o val this] obtain b where "agree i j val w2 = Inr b" by blast
    show ?thesis
    proof (cases b)
      case True
      with o Some \<open>agree i j val w2 = Inr b\<close> ih show ?thesis by simp
    next
      case False
      with o Some \<open>agree i j val w2 = Inr b\<close>
      have "check_neighbors cw asg var val (n # ns) = Inr False" by simp
      then show ?thesis by blast
    qed
  qed
qed

lemma check_items_total:
  assumes wf: "wf_crossword cw" and ok: "lengths_ok asg"
  shows "\<exists>b. check_items cw asg items = Inr b"
proof (induction items)
  case Nil
  show ?case by auto
next
  case (Cons item items)
  obtain var val where item: "item = (var, val)" by (cases item)
  show ?case
  proof (cases "int (length val) = var_length var")
    case False
    then have "check_items cw asg (item # items) = Inr False" by (simp add: item)
    then show ?thesis by blast
  next
    case True
    from check_neighbors_total[OF wf ok True subset_refl]
    obtain b where "check_neighbors cw asg var val (neighbors cw var) = Inr b" by blast
    note cn = this
    show ?thesis
    proof (cases b)
      case t: True
      with cn Cons.IH True show ?thesis by (simp add: item)
    next
      case False
      with cn True have "check_items cw asg (item # items) = Inr False" by (simp add: item)
      then show ?thesis by blast
    qed
  qed
qed

lemma consistent_total:
  assumes "wf_crossword cw" and "lengths_ok asg"
  shows "\<exists>b. consistent cw asg = Inr b"
proof (cases "list_all (\<lambda>c. c = 1) (unique_counts (map snd asg))")
  case True
  with check_items_total[OF assms, of asg] show ?thesis by (simp add: consistent_def)
next
  case False
  then have "consistent cw asg = Inr False" by (simp add: consistent_def)
  then show ?thesis by blast
qed

text \<open>
  When every assigned word has the length of its variable, the check returns \<open>True\<close>
  exactly for the assignments with pairwise distinct words that agree at every overlap
  of two assigned neighbours.
\<close>

lemma check_neighbors_eq:
  assumes wf: "wf_crossword cw" and ok: "lengths_ok asg"
    and val: "int (length val) = var_length var"
  shows "set ns \<subseteq> set (neighbors cw var) \<Longrightarrow>
     check_neighbors cw asg var val ns = Inr (list_all (neighbor_agrees cw asg var val) ns)"
proof (induction ns)
  case Nil
  show ?case by simp
next
  case (Cons n ns)
  from Cons.prems have "n \<in> set (neighbors cw var)" by simp
  then obtain i j where o: "map_of (overlaps cw) (var, n) = Some (Some (i, j))"
    unfolding neighbors_iff[OF wf] by blast
  from Cons have ih: "check_neighbors cw asg var val ns =
      Inr (list_all (neighbor_agrees cw asg var val) ns)" by simp
  show ?case
  proof (cases "map_of asg n")
    case None
    then have "neighbor_agrees cw asg var val n" by (simp add: neighbor_agrees_def)
    with None o ih show ?thesis by simp
  next
    case (Some w2)
    from lengths_ok_lookup[OF ok Some] have "int (length w2) = var_length n" .
    from agree_total[OF wf o val this] obtain b where b: "agree i j val w2 = Inr b" by blast
    show ?thesis
    proof (cases b)
      case True
      with o Some b have "neighbor_agrees cw asg var val n" by (simp add: neighbor_agrees_def)
      with True o Some b ih show ?thesis by simp
    next
      case False
      with o Some b have "\<not> neighbor_agrees cw asg var val n"
        by (simp add: neighbor_agrees_def)
      with False o Some b show ?thesis by simp
    qed
  qed
qed

lemma check_items_eq:
  assumes wf: "wf_crossword cw" and ok: "lengths_ok asg"
  shows "check_items cw asg items = Inr (list_all (item_ok cw asg) items)"
proof (induction items)
  case Nil
  show ?case by simp
next
  case (Cons item items)
  obtain var val where item: "item = (var, val)" by (cases item)
  show ?case
  proof (cases "int (length val) = var_length var")
    case False
    then have "\<not> item_ok cw asg item" by (simp add: item item_ok_def)
    with False show ?thesis by (simp add: item)
  next
    case True
    note cn = check_neighbors_eq[OF wf ok True subset_refl]
    show ?thesis
    proof (cases "list_all (neighbor_agrees cw asg var val) (neighbors cw var)")
      case t: True
      with True have "item_ok cw asg item" by (simp add: item item_ok_def)
      with t cn Cons.IH True show ?thesis by (simp add: item)
    next
      case False
      then have "\<not> item_ok cw asg item" by (simp add: item item_ok_def)
      with False cn True show ?thesis by (simp add: item)
    qed
  qed
qed

lemma consistent_eq:
  assumes "wf_crossword cw" and "lengths_ok asg"
  shows "consistent cw asg = Inr (distinct (map snd asg) \<and> list_all (item_ok cw asg) asg)"
proof (cases "distinct (map snd asg)")
  case True
  then have "list_all (\<lambda>c. c = 1) (unique_counts (map snd asg))"
    by (rule unique_counts_distinct[THEN iffD2])
  with True check_items_eq[OF assms, of asg] show ?thesis by (simp add: consistent_def)
next
  case False
  then have "\<not> list_all (\<lambda>c. c = 1) (unique_counts (map snd asg))"
    using unique_counts_distinct[of "map snd asg"] by blast
  with False show ?thesis by (simp add: consistent_def)
qed

text \<open>A repeated word is always rejected, whatever the lengths.\<close>

lemma consistent_repeated_word:
  "\<not> distinct (map snd asg) \<Longrightarrow> consistent cw asg = Inr False"
  using unique_counts_distinct[of "map snd asg"] by (simp add: consistent_def)

section \<open>No exception in the ordering of the values\<close>

lemma count_loop_keys:
  "\<forall>w2 \<in> set ws. \<exists>b. agree i j w1 w2 = Inr b \<Longrightarrow>
   \<exists>result'. count_loop (Some (i, j)) w1 ws nb result = Inr result' \<and>
     fst ` set result' =
       fst ` set result \<union> (if \<exists>w2 \<in> set ws. agree i j w1 w2 = Inr False then {w1} else {})"
proof (induction ws arbitrary: nb result)
  case Nil
  show ?case by simp
next
  case (Cons w2 ws)
  from Cons.prems obtain b where b: "agree i j w1 w2 = Inr b" by auto
  from Cons.prems have rest: "\<forall>w2 \<in> set ws. \<exists>b. agree i j w1 w2 = Inr b" by simp
  show ?case
  proof (cases b)
    case True
    from Cons.IH[OF rest, of nb result] obtain result' where
      r: "count_loop (Some (i, j)) w1 ws nb result = Inr result'" and
      k: "fst ` set result' = fst ` set result \<union>
          (if \<exists>w2 \<in> set ws. agree i j w1 w2 = Inr False then {w1} else {})" by blast
    from b True r have "count_loop (Some (i, j)) w1 (w2 # ws) nb result = Inr result'"
      by simp
    moreover from b True have "(\<exists>w \<in> set (w2 # ws). agree i j w1 w = Inr False) \<longleftrightarrow>
        (\<exists>w \<in> set ws. agree i j w1 w = Inr False)" by simp
    ultimately show ?thesis using k by simp
  next
    case False
    let ?r1 = "AList.update w1 (nb + 1) result"
    from Cons.IH[OF rest, of "nb + 1" ?r1] obtain result' where
      r: "count_loop (Some (i, j)) w1 ws (nb + 1) ?r1 = Inr result'" and
      k: "fst ` set result' = fst ` set ?r1 \<union>
          (if \<exists>w2 \<in> set ws. agree i j w1 w2 = Inr False then {w1} else {})" by blast
    from b False r have "count_loop (Some (i, j)) w1 (w2 # ws) nb result = Inr result'"
      by simp
    moreover from b False have "\<exists>w \<in> set (w2 # ws). agree i j w1 w = Inr False" by simp
    moreover from k have "fst ` set result' = fst ` set result \<union> {w1}"
      by (auto simp: dom_update)
    ultimately show ?thesis by simp
  qed
qed

lemma word_loop_keys:
  "\<forall>w1 \<in> set wsv. \<forall>w2 \<in> set wn. \<exists>b. agree i j w1 w2 = Inr b \<Longrightarrow>
   \<exists>result'. word_loop (Some (i, j)) wsv wn result = Inr result' \<and>
     fst ` set result' =
       fst ` set result \<union> {w1 \<in> set wsv. \<exists>w2 \<in> set wn. agree i j w1 w2 = Inr False}"
proof (induction wsv arbitrary: result)
  case Nil
  show ?case by simp
next
  case (Cons w1 wsv)
  from Cons.prems have "\<forall>w2 \<in> set wn. \<exists>b. agree i j w1 w2 = Inr b" by simp
  from count_loop_keys[OF this, of 0 result] obtain r1 where
    c: "count_loop (Some (i, j)) w1 wn 0 result = Inr r1" and
    k1: "fst ` set r1 = fst ` set result \<union>
         (if \<exists>w2 \<in> set wn. agree i j w1 w2 = Inr False then {w1} else {})" by blast
  from Cons.prems have "\<forall>w1 \<in> set wsv. \<forall>w2 \<in> set wn. \<exists>b. agree i j w1 w2 = Inr b" by simp
  from Cons.IH[OF this, of r1] obtain result' where
    w: "word_loop (Some (i, j)) wsv wn r1 = Inr result'" and
    k: "fst ` set result' =
        fst ` set r1 \<union> {w1 \<in> set wsv. \<exists>w2 \<in> set wn. agree i j w1 w2 = Inr False}" by blast
  from c w have "word_loop (Some (i, j)) (w1 # wsv) wn result = Inr result'" by simp
  moreover from k k1 have "fst ` set result' = fst ` set result \<union>
      {w \<in> set (w1 # wsv). \<exists>w2 \<in> set wn. agree i j w w2 = Inr False}"
    by (auto split: if_splits)
  ultimately show ?case by blast
qed

lemma neighbor_loop_keys:
  assumes wf: "wf_crossword cw" and ok: "store_ok cw doms"
    and len: "\<forall>w \<in> set word_var. int (length w) = var_length var"
  shows "set ns \<subseteq> set (neighbors cw var) \<Longrightarrow>
   \<exists>result'. neighbor_loop cw doms var asg word_var ns result = Inr result' \<and>
     fst ` set result' =
       fst ` set result \<union>
       {w1 \<in> set word_var. \<exists>n \<in> set ns. n \<notin> set (map fst asg) \<and> disagrees cw doms var n w1}"
proof (induction ns arbitrary: result)
  case Nil
  show ?case by simp
next
  case (Cons n ns)
  from Cons.prems have nn: "n \<in> set (neighbors cw var)" and sub: "set ns \<subseteq> set (neighbors cw var)"
    by simp_all
  show ?case
  proof (cases "n \<in> set (map fst asg)")
    case True
    from Cons.IH[OF sub, of result] obtain result' where
      r: "neighbor_loop cw doms var asg word_var ns result = Inr result'" and
      k: "fst ` set result' = fst ` set result \<union>
        {w1 \<in> set word_var. \<exists>n \<in> set ns. n \<notin> set (map fst asg) \<and> disagrees cw doms var n w1}"
      by blast
    from True r have "neighbor_loop cw doms var asg word_var (n # ns) result = Inr result'"
      by simp
    moreover from True k have "fst ` set result' = fst ` set result \<union>
        {w1 \<in> set word_var. \<exists>m \<in> set (n # ns). m \<notin> set (map fst asg) \<and>
           disagrees cw doms var m w1}" by auto
    ultimately show ?thesis by blast
  next
    case False
    from nn obtain i j where o: "map_of (overlaps cw) (var, n) = Some (Some (i, j))"
      unfolding neighbors_iff[OF wf] by blast
    from store_ok_lookup[OF ok wf_overlap_keys(2)[OF wf o]] obtain wn where
      sn: "map_of doms n = Some wn" by blast
    have "\<forall>w1 \<in> set word_var. \<forall>w2 \<in> set wn. \<exists>b. agree i j w1 w2 = Inr b"
      using len store_ok_length[OF ok sn] by (auto intro!: agree_total[OF wf o])
    from word_loop_keys[OF this, of result] obtain r1 where
      w: "word_loop (Some (i, j)) word_var wn result = Inr r1" and
      k1: "fst ` set r1 = fst ` set result \<union>
          {w1 \<in> set word_var. \<exists>w2 \<in> set wn. agree i j w1 w2 = Inr False}" by blast
    have d: "disagrees cw doms var n w1 \<longleftrightarrow> (\<exists>w2 \<in> set wn. agree i j w1 w2 = Inr False)" for w1
      by (simp add: disagrees_def o sn)
    from Cons.IH[OF sub, of r1] obtain result' where
      r: "neighbor_loop cw doms var asg word_var ns r1 = Inr result'" and
      k: "fst ` set result' = fst ` set r1 \<union>
        {w1 \<in> set word_var. \<exists>n \<in> set ns. n \<notin> set (map fst asg) \<and> disagrees cw doms var n w1}"
      by blast
    from False o sn w r
    have "neighbor_loop cw doms var asg word_var (n # ns) result = Inr result'" by simp
    moreover from False k k1 d have "fst ` set result' = fst ` set result \<union>
        {w1 \<in> set word_var. \<exists>m \<in> set (n # ns). m \<notin> set (map fst asg) \<and>
           disagrees cw doms var m w1}" by auto
    ultimately show ?thesis by blast
  qed
qed

text \<open>
  In an arc-consistent store, a word of \<open>var\<close> that disagrees with some word of the
  neighbour \<open>n\<close> is not alone: every word of \<open>var\<close> does.
\<close>

lemma disagrees_all:
  assumes wf: "wf_crossword cw" and ok: "store_ok cw doms"
    and stable: "stable_arc cw doms (var, n)"
    and sv: "map_of doms var = Some word_var"
    and wa: "wa \<in> set word_var" and wb: "wb \<in> set word_var"
    and da: "disagrees cw doms var n wa"
  shows "disagrees cw doms var n wb"
proof -
  from da obtain i j wn ua where o: "map_of (overlaps cw) (var, n) = Some (Some (i, j))"
    and sn: "map_of doms n = Some wn" and ua: "ua \<in> set wn"
    and dis: "agree i j wa ua = Inr False"
    unfolding disagrees_def by blast
  from stable sv sn wa have "find_support i j wa wn = Inr True"
    unfolding stable_arc_iff[OF o] by auto
  then obtain sa where sa: "sa \<in> set wn" and sup: "agree i j wa sa = Inr True"
    by (blast dest: find_support_True)
  from store_ok_length[OF ok sv wb] have lb: "int (length wb) = var_length var" .
  from agree_total[OF wf o lb store_ok_length[OF ok sn ua]]
  obtain b1 where b1: "agree i j wb ua = Inr b1" by blast
  from agree_total[OF wf o lb store_ok_length[OF ok sn sa]]
  obtain b2 where b2: "agree i j wb sa = Inr b2" by blast
  from dis sup b1 b2 have "\<not> b1 \<or> \<not> b2"
    unfolding agree_Inr_iff by auto
  then have "\<exists>w2 \<in> set wn. agree i j wb w2 = Inr False"
  proof
    assume "\<not> b1"
    with b1 ua show ?thesis by auto
  next
    assume "\<not> b2"
    with b2 sa show ?thesis by auto
  qed
  with o sn show ?thesis unfolding disagrees_def by blast
qed

lemma getitem_keys_total:
  "\<forall>w \<in> set ws. w \<in> fst ` set result \<Longrightarrow>
   \<exists>keyed. getitem_keys result ws = Inr keyed \<and> map snd keyed = ws"
proof (induction ws)
  case Nil
  show ?case by simp
next
  case (Cons w ws)
  from Cons.prems have "map_of result w \<noteq> None" by (simp add: map_of_eq_None_iff)
  then obtain k where k: "map_of result w = Some k" by blast
  from Cons obtain keyed where "getitem_keys result ws = Inr keyed" "map snd keyed = ws"
    by auto
  with k show ?case by simp
qed

lemma neighbor_loop_keys_start:
  assumes "wf_crossword cw" and "store_ok cw doms"
    and "\<forall>w \<in> set word_var. int (length w) = var_length var"
  shows "\<exists>result. neighbor_loop cw doms var asg word_var (neighbors cw var) [] = Inr result \<and>
     fst ` set result =
       {w1 \<in> set word_var. \<exists>n \<in> set (neighbors cw var).
          n \<notin> set (map fst asg) \<and> disagrees cw doms var n w1}"
  using neighbor_loop_keys[OF assms subset_refl, of asg "[]"] by simp

lemma arc_consistent_stable:
  "arc_consistent cw doms \<Longrightarrow> map_of (overlaps cw) (x, y) = Some (Some (i, j)) \<Longrightarrow>
   stable_arc cw doms (x, y)"
  by (simp add: arc_consistent_def arcs_invariant_def)

lemma order_domain_values_total:
  assumes wf: "wf_crossword cw" and ok: "store_ok cw doms" and ac: "arc_consistent cw doms"
    and sv: "map_of doms var = Some word_var"
  shows "\<exists>vals. order_domain_values cw doms var asg = Inr vals \<and> set vals = set word_var"
proof -
  have len: "\<forall>w \<in> set word_var. int (length w) = var_length var"
    using store_ok_length[OF ok sv] by blast
  from neighbor_loop_keys_start[OF wf ok len, of asg] obtain result where
    nl: "neighbor_loop cw doms var asg word_var (neighbors cw var) [] = Inr result" and
    keys: "fst ` set result = {w1 \<in> set word_var. \<exists>n \<in> set (neighbors cw var).
        n \<notin> set (map fst asg) \<and> disagrees cw doms var n w1}" by blast
  show ?thesis
  proof (cases "length result = 0")
    case True
    with sv nl show ?thesis by (simp add: order_domain_values_def)
  next
    case False
    then obtain p where "p \<in> set result" by (cases result) auto
    then have "fst p \<in> fst ` set result" by simp
    then have "fst p \<in> {w1 \<in> set word_var. \<exists>n \<in> set (neighbors cw var).
        n \<notin> set (map fst asg) \<and> disagrees cw doms var n w1}" unfolding keys .
    then obtain wa n where wa: "wa \<in> set word_var" and n: "n \<in> set (neighbors cw var)"
      and na: "n \<notin> set (map fst asg)" and da: "disagrees cw doms var n wa" by blast
    from n obtain i j where o: "map_of (overlaps cw) (var, n) = Some (Some (i, j))"
      unfolding neighbors_iff[OF wf] by blast
    from arc_consistent_stable[OF ac o] have st: "stable_arc cw doms (var, n)" .
    have "\<forall>w \<in> set word_var. w \<in> fst ` set result"
    proof
      fix wb assume wb: "wb \<in> set word_var"
      from disagrees_all[OF wf ok st sv wa wb da] n na wb show "wb \<in> fst ` set result"
        unfolding keys by blast
    qed
    from getitem_keys_total[OF this] obtain keyed where
      g: "getitem_keys result word_var = Inr keyed" and m: "map snd keyed = word_var" by blast
    from sv nl False g have "order_domain_values cw doms var asg =
        Inr (map snd (sort_key fst keyed))"
      by (simp add: order_domain_values_def sorted_by_result_def)
    moreover have "set (map snd (sort_key fst keyed)) = set word_var"
      unfolding m[symmetric] by simp
    ultimately show ?thesis by blast
  qed
qed

text \<open>With an empty domain the loops have nothing to index.\<close>

lemma order_domain_values_empty:
  assumes wf: "wf_crossword cw" and ok: "store_ok cw doms" and sv: "map_of doms var = Some []"
  shows "order_domain_values cw doms var asg = Inr []"
proof -
  have "\<forall>w \<in> set []. int (length w) = var_length var" by simp
  from neighbor_loop_keys_start[OF wf ok this, of asg] obtain result where
    nl: "neighbor_loop cw doms var asg [] (neighbors cw var) [] = Inr result" and
    k: "fst ` set result = {w1 \<in> set []. \<exists>n \<in> set (neighbors cw var).
        n \<notin> set (map fst asg) \<and> disagrees cw doms var n w1}" by blast
  from k have "result = []" by simp
  with sv nl show ?thesis by (simp add: order_domain_values_def)
qed

section \<open>No exception during the search\<close>

lemma backtrack_try_values_total:
  "wf_crossword cw \<longrightarrow> store_ok cw doms \<longrightarrow> arc_consistent cw doms \<longrightarrow> lengths_ok asg \<longrightarrow>
     (\<exists>res a. backtrack cw doms asg = Inr (res, a) \<and> lengths_ok a \<and>
        fst ` set asg \<subseteq> fst ` set a)"
  "wf_crossword cw \<longrightarrow> store_ok cw doms \<longrightarrow> arc_consistent cw doms \<longrightarrow> lengths_ok asg \<longrightarrow>
   (\<forall>v \<in> set vs. int (length v) = var_length var) \<longrightarrow>
     (\<exists>res a. try_values cw doms var vs asg = Inr (res, a) \<and> lengths_ok a \<and>
        fst ` set asg - {var} \<subseteq> fst ` set a)"
proof (induction cw doms asg and cw doms var vs asg rule: backtrack_try_values.induct)
  case (1 cw doms asg)
  note eq = backtrack.simps[of cw doms asg]
  show ?case
  proof (intro impI)
    assume wf: "wf_crossword cw" and ok: "store_ok cw doms" and ac: "arc_consistent cw doms"
      and lo: "lengths_ok asg"
    show "\<exists>res a. backtrack cw doms asg = Inr (res, a) \<and> lengths_ok a \<and>
        fst ` set asg \<subseteq> fst ` set a"
    proof (cases "assignment_complete cw asg")
      case True
      then have "backtrack cw doms asg = Inr (Some asg, asg)" unfolding eq by simp
      with lo show ?thesis by blast
    next
      case False
      from select_unassigned_variable_total[OF ok False] obtain var ws where
        sel: "select_unassigned_variable cw doms asg = Inr var" and
        sv: "map_of doms var = Some ws" by blast
      from order_domain_values_total[OF wf ok ac sv, of asg] obtain vals where
        ord: "order_domain_values cw doms var asg = Inr vals" and sets: "set vals = set ws"
        by blast
      have "\<forall>v \<in> set vals. int (length v) = var_length var"
        using store_ok_length[OF ok sv] sets by blast
      with "1.IH"[OF False sel ord] wf ok ac lo obtain res a where
        tr: "try_values cw doms var vals asg = Inr (res, a)" and la: "lengths_ok a"
        and k: "fst ` set asg - {var} \<subseteq> fst ` set a" by blast
      from False sel ord tr have "backtrack cw doms asg = Inr (res, a)" unfolding eq by simp
      moreover from k select_unassigned_variable_unassigned(2)[OF sel]
      have "fst ` set asg \<subseteq> fst ` set a" by blast
      ultimately show ?thesis using la by blast
    qed
  qed
next
  case (2 cw doms var asg)
  show ?case by auto
next
  case (3 cw doms var v vs asg)
  note eq = try_values.simps(2)[of cw doms var v vs asg]
  let ?asg1 = "AList.update var v asg"
  show ?case
  proof (intro impI)
    assume wf: "wf_crossword cw" and ok: "store_ok cw doms" and ac: "arc_consistent cw doms"
      and lo: "lengths_ok asg" and lv: "\<forall>v \<in> set (v # vs). int (length v) = var_length var"
    from lv have lv1: "int (length v) = var_length var"
      and lvs: "\<forall>v \<in> set vs. int (length v) = var_length var" by simp_all
    from lo lv1 have lo1: "lengths_ok ?asg1" by (rule lengths_ok_update)
    have k1: "fst ` set ?asg1 = insert var (fst ` set asg)" by (simp add: dom_update)
    from consistent_total[OF wf lo1] obtain okc where c: "consistent cw ?asg1 = Inr okc"
      by blast
    show "\<exists>res a. try_values cw doms var (v # vs) asg = Inr (res, a) \<and> lengths_ok a \<and>
        fst ` set asg - {var} \<subseteq> fst ` set a"
    proof (cases okc)
      case False
      from "3.IH"(3)[OF c False] wf ok ac lo1 lvs obtain res a where
        tr: "try_values cw doms var vs ?asg1 = Inr (res, a)" and la: "lengths_ok a"
        and k: "fst ` set ?asg1 - {var} \<subseteq> fst ` set a" by blast
      from c False tr have "try_values cw doms var (v # vs) asg = Inr (res, a)"
        unfolding eq by simp
      moreover from k1 have "fst ` set asg - {var} \<subseteq> fst ` set a"
        by (rule keys_step[OF _ subset_refl k])
      ultimately show ?thesis using la by blast
    next
      case True
      from "3.IH"(1)[OF c True] wf ok ac lo1 obtain res' asg' where
        b: "backtrack cw doms ?asg1 = Inr (res', asg')" and la': "lengths_ok asg'"
        and s1: "fst ` set ?asg1 \<subseteq> fst ` set asg'" by blast
      show ?thesis
      proof (cases res')
        case (Some r)
        with c True b have "try_values cw doms var (v # vs) asg = Inr (Some r, asg')"
          unfolding eq by simp
        moreover have "fst ` set asg - {var} \<subseteq> fst ` set asg'"
          by (rule keys_step[OF k1 s1]) blast
        ultimately show ?thesis using la' by blast
      next
        case None
        from s1 k1 have "var \<in> fst ` set asg'" by blast
        then have inn: "var \<in> set (map fst asg')" by simp
        from la' have "lengths_ok (AList.delete var asg')" by (rule lengths_ok_delete)
        with "3.IH"(2)[OF c True b refl None inn] wf ok ac lvs obtain res a where
          tr: "try_values cw doms var vs (AList.delete var asg') = Inr (res, a)"
          and la: "lengths_ok a"
          and k: "fst ` set (AList.delete var asg') - {var} \<subseteq> fst ` set a" by blast
        from c True b None inn tr have "try_values cw doms var (v # vs) asg = Inr (res, a)"
          unfolding eq by simp
        moreover from k have "fst ` set asg' - {var} \<subseteq> fst ` set a"
          unfolding keys_delete by simp
        with k1 s1 have "fst ` set asg - {var} \<subseteq> fst ` set a" by (rule keys_step)
        ultimately show ?thesis using la by blast
      qed
    qed
  qed
qed

lemma lengths_ok_Nil: "lengths_ok []"
  by (simp add: lengths_ok_def)

text \<open>
  When a domain is empty, the search picks a variable with an empty domain first and
  gives up at once.
\<close>

lemma backtrack_empty_domain:
  assumes wf: "wf_crossword cw" and ok: "store_ok cw doms" and e: "map_of doms x = Some []"
  shows "backtrack cw doms [] = Inr (None, [])"
proof -
  from e have "(x, []) \<in> set doms" by (rule map_of_SomeD)
  then have "x \<in> set (map fst doms)" by force
  with ok have x: "x \<in> set (variables cw)" by (simp add: store_ok_def)
  then have nc: "\<not> assignment_complete cw []"
    by (auto simp: assignment_complete_def filter_empty_conv)
  from select_unassigned_variable_total[OF ok nc] obtain var ws where
    sel: "select_unassigned_variable cw doms [] = Inr var" and
    sv: "map_of doms var = Some ws" and
    least: "\<forall>u us. u \<in> set (variables cw) \<longrightarrow> u \<notin> set (map fst ([] :: assignment)) \<longrightarrow>
        map_of doms u = Some us \<longrightarrow> length ws \<le> length us" by blast
  from least x e have "length ws \<le> length ([] :: string list)" by auto
  then have "ws = []" by simp
  with sv have "order_domain_values cw doms var [] = Inr []"
    by (simp add: order_domain_values_empty[OF wf ok])
  with nc sel show ?thesis by (simp add: backtrack.simps[of cw doms "[]"])
qed

lemma initial_arcs_known:
  "\<forall>arc \<in> set (initial_arcs cw). map_of (overlaps cw) arc \<noteq> None"
proof
  fix arc assume "arc \<in> set (initial_arcs cw)"
  then obtain r where "(arc, Some r) \<in> set (overlaps cw)" unfolding mem_initial_arcs by blast
  then have "arc \<in> fst ` set (overlaps cw)" by force
  then show "map_of (overlaps cw) arc \<noteq> None" by (simp add: map_of_eq_None_iff)
qed

lemma solve_from_total:
  assumes wf: "wf_crossword cw" and ok: "store_ok cw (enforce_node_consistency doms)"
  shows "solve_from cw doms = Inr None \<or>
     (\<exists>asg. solve_from cw doms = Inr (Some asg) \<and> assignment_complete cw asg)"
proof -
  let ?d1 = "enforce_node_consistency doms"
  from ac3_loop_total[OF wf ok initial_arcs_known] obtain ret d2 where
    a: "ac3_loop cw ?d1 (initial_arcs cw) = Inr (ret, d2)" and ok2: "store_ok cw d2" by blast
  then have ac3: "ac3 cw ?d1 None = Inr (ret, d2)" by (simp add: ac3_def)
  have "\<exists>res a. backtrack cw d2 [] = Inr (res, a)"
  proof (cases ret)
    case None
    from ac3_loop_invariant[OF wf arcs_invariant_initial[OF wf] a[unfolded None]]
    have "arc_consistent cw d2" by (simp add: arc_consistent_def)
    with backtrack_try_values_total(1)[of cw d2 "[]"] wf ok2 lengths_ok_Nil
    show ?thesis by blast
  next
    case (Some b)
    with a ac3_loop_never_True[of cw ?d1 "initial_arcs cw" d2] have "\<not> b" by auto
    with a Some have "ac3_loop cw ?d1 (initial_arcs cw) = Inr (Some False, d2)" by simp
    from ac3_loop_False_empty[OF this] obtain x where "map_of d2 x = Some []" by blast
    from backtrack_empty_domain[OF wf ok2 this] show ?thesis by blast
  qed
  then obtain res a where b: "backtrack cw d2 [] = Inr (res, a)" by blast
  with ac3 have s: "solve_from cw doms = Inr res" by (simp add: solve_from_def)
  show ?thesis
  proof (cases res)
    case None
    with s show ?thesis by simp
  next
    case (Some asg)
    from backtrack_try_values_sound(1)[of cw d2 "[]"] b Some keys_ok_Nil[of cw]
      consistent_Nil[of cw]
    have "solution cw asg" by blast
    with s Some show ?thesis by (simp add: solution_def)
  qed
qed

text \<open>
  C3. On a well-formed puzzle, \<open>solve\<close> returns: its result is \<open>None\<close> or an assignment
  that binds every variable. No \<open>KeyError\<close>, \<open>IndexError\<close> or \<open>TypeError\<close> is raised on
  the way, neither in propagation nor in \<open>order_domain_values\<close>, whose sort key is
  defined for every word because the store is arc consistent when the search runs.
\<close>

theorem solve_total:
  assumes "wf_crossword cw"
  shows "solve cw = Inr None \<or>
     (\<exists>asg. solve cw = Inr (Some asg) \<and> assignment_complete cw asg)"
  unfolding solve_def by (rule solve_from_total[OF assms store_ok_initial[OF assms]])

theorem solve_total_witness:
  "wf_crossword gate_missed \<and> solve gate_missed = Inr None \<and>
   wf_crossword two_slots \<and>
   (\<exists>asg. solve two_slots = Inr (Some asg) \<and> assignment_complete two_slots asg)"
proof -
  have n: "solve gate_missed = Inr None" by code_simp
  have s: "solve two_slots \<noteq> Inr None" by code_simp
  from solve_total[OF wf_two_slots] s
  have "\<exists>asg. solve two_slots = Inr (Some asg) \<and> assignment_complete two_slots asg"
    by blast
  with wf_gate_missed wf_two_slots n show ?thesis by blast
qed

end
